theory Spec2Isabelle
  imports Complex_Main
begin

section \<open>The phugoid flight path of Lesson-1_Phugoid.ipynb\<close>

text \<open>
  The notebook defines three functions: \<open>radius_of_curvature\<close>, \<open>rotate\<close> and
  \<open>plot_flight_path\<close>. They compute with NumPy's \<open>float64\<close> numbers under
  \<open>numpy.seterr(all='ignore')\<close>. NumPy's arithmetic is not part of the notebook, so
  the embedding takes it as a parameter: a record of the operations the three functions
  call. What is proved for an arbitrary record holds for every arithmetic, rounded or
  not. Section \<open>Exact arithmetic with the special values\<close> gives one instance,
  in which finite results are exact real numbers and the special values of IEEE 754 are
  kept. Section \<open>Float64 arithmetic\<close> gives the instance the code runs in: every
  result is rounded to the nearest binary64 number.
\<close>

subsection \<open>Numbers and arrays\<close>

text \<open>
  \<open>lit r\<close> is the number a literal or a library constant denotes (\<open>0.0\<close>,
  \<open>1.5\<close>, \<open>numpy.pi\<close>; the integer literals \<open>1\<close>, \<open>2\<close>, \<open>3\<close>
  are converted to floating point when they meet a float operand). \<open>fpow\<close> is
  \<open>**\<close>, \<open>fneg\<close> the unary minus, \<open>fradians\<close> is \<open>numpy.radians\<close>.
\<close>

record 'a arith =
  lit :: "real \<Rightarrow> 'a"
  fadd :: "'a \<Rightarrow> 'a \<Rightarrow> 'a"
  fsub :: "'a \<Rightarrow> 'a \<Rightarrow> 'a"
  fmul :: "'a \<Rightarrow> 'a \<Rightarrow> 'a"
  fdiv :: "'a \<Rightarrow> 'a \<Rightarrow> 'a"
  fpow :: "'a \<Rightarrow> 'a \<Rightarrow> 'a"
  fneg :: "'a \<Rightarrow> 'a"
  fcos :: "'a \<Rightarrow> 'a"
  fsin :: "'a \<Rightarrow> 'a"
  fradians :: "'a \<Rightarrow> 'a"

text \<open>
  The exceptions the code can raise: \<open>numpy.zeros\<close> with a negative length and an
  operation on arrays whose shapes do not broadcast raise \<open>ValueError\<close>, an index
  out of range raises \<open>IndexError\<close>.
\<close>

datatype error = ValueError | IndexError

definition bind_err :: "error + 'b \<Rightarrow> ('b \<Rightarrow> error + 'c) \<Rightarrow> error + 'c" where
  "bind_err m f = (case m of Inl e \<Rightarrow> Inl e | Inr v \<Rightarrow> f v)"

definition zeros :: "'a arith \<Rightarrow> int \<Rightarrow> error + 'a list" where
  "zeros A n = (if n < 0 then Inl ValueError else Inr (replicate (nat n) (lit A 0)))"

text \<open>
  An index into a one-dimensional array of \<open>len\<close> entries: from \<open>0\<close> it counts
  from the front, below \<open>0\<close> from the back, and outside both ranges it raises.
\<close>

definition resolve_index :: "nat \<Rightarrow> int \<Rightarrow> error + nat" where
  "resolve_index len i =
     (if 0 \<le> i \<and> i < int len then Inr (nat i)
      else if i < 0 \<and> - int len \<le> i then Inr (nat (int len + i))
      else Inl IndexError)"

definition getitem :: "'a list \<Rightarrow> int \<Rightarrow> error + 'a" where
  "getitem xs i = bind_err (resolve_index (length xs) i) (\<lambda>j. Inr (xs ! j))"

definition setitem :: "'a list \<Rightarrow> int \<Rightarrow> 'a \<Rightarrow> error + 'a list" where
  "setitem xs i v = bind_err (resolve_index (length xs) i) (\<lambda>j. Inr (xs[j := v]))"

subsection \<open>radius_of_curvature\<close>

text \<open>
  \<^verbatim>\<open>return zt / (1 / 3 - C / 2 * (zt / z)**1.5)\<close>

  In Python \<open>**\<close> binds tighter than \<open>*\<close> and \<open>/\<close>, which associate to the left
  and bind tighter than the binary \<open>-\<close>. The loop calls the function with
  \<open>z[i - 1]\<close>, a \<open>numpy.float64\<close>, and so every operation in it is NumPy's: a zero
  divisor gives an infinity or NaN. (On Python's own floats \<open>/\<close> raises
  \<open>ZeroDivisionError\<close> at a zero divisor; the model is of the NumPy numbers.)
\<close>

definition radius_of_curvature :: "'a arith \<Rightarrow> 'a \<Rightarrow> 'a \<Rightarrow> 'a \<Rightarrow> 'a" where
  "radius_of_curvature A z zt C =
     fdiv A zt
       (fsub A (fdiv A (lit A 1) (lit A 3))
          (fmul A (fdiv A C (lit A 2)) (fpow A (fdiv A zt z) (lit A 1.5))))"

subsection \<open>rotate\<close>

text \<open>
  \<^verbatim>\<open>def rotate(coords, center=(0.0, 0.0), angle=0.0, mode='degrees'):
    x, z = coords
    xc, zc = center
    if mode == 'degrees':
        angle = numpy.radians(angle)
    x_new = xc + (x - xc) * numpy.cos(angle) + (z - zc) * numpy.sin(angle)
    z_new = zc - (x - xc) * numpy.sin(angle) + (z - zc) * numpy.cos(angle)
    return x_new, z_new\<close>

  An argument left out is \<open>None\<close> and takes the default of the signature. The
  docstring gives \<open>coords\<close> two shapes: a pair of floats (\<open>rotate_point\<close>; the
  name \<open>rotate\<close> belongs to a function on lists of HOL) and a pair of
  one-dimensional arrays (\<open>rotate_arrays\<close>, the same lines with NumPy's element-wise
  operators).
\<close>

definition rotate_point ::
  "'a arith \<Rightarrow> 'a \<times> 'a \<Rightarrow> ('a \<times> 'a) option \<Rightarrow> 'a option \<Rightarrow> string option \<Rightarrow> 'a \<times> 'a" where
  "rotate_point A coords center angle mode =
     (let (x, z) = coords;
          (xc, zc) = (case center of None \<Rightarrow> (lit A 0, lit A 0) | Some c \<Rightarrow> c);
          angle0 = (case angle of None \<Rightarrow> lit A 0 | Some a \<Rightarrow> a);
          mode0 = (case mode of None \<Rightarrow> ''degrees'' | Some m \<Rightarrow> m);
          angle1 = (if mode0 = ''degrees'' then fradians A angle0 else angle0);
          x_new = fadd A (fadd A xc (fmul A (fsub A x xc) (fcos A angle1)))
                    (fmul A (fsub A z zc) (fsin A angle1));
          z_new = fadd A (fsub A zc (fmul A (fsub A x xc) (fsin A angle1)))
                    (fmul A (fsub A z zc) (fcos A angle1))
      in (x_new, z_new))"

text \<open>
  Two arrays combine element by element when their lengths agree; an array of length one
  is stretched to the other's length; any other pair of lengths raises \<open>ValueError\<close>.
\<close>

definition broadcast2 :: "('a \<Rightarrow> 'a \<Rightarrow> 'a) \<Rightarrow> 'a list \<Rightarrow> 'a list \<Rightarrow> error + 'a list" where
  "broadcast2 f xs ys =
     (if length xs = length ys then Inr (map2 f xs ys)
      else if length xs = 1 then Inr (map (f (hd xs)) ys)
      else if length ys = 1 then Inr (map (\<lambda>x. f x (hd ys)) xs)
      else Inl ValueError)"

definition rotate_arrays ::
  "'a arith \<Rightarrow> 'a list \<times> 'a list \<Rightarrow> ('a \<times> 'a) option \<Rightarrow> 'a option \<Rightarrow> string option
     \<Rightarrow> error + ('a list \<times> 'a list)" where
  "rotate_arrays A coords center angle mode =
     (let (x, z) = coords;
          (xc, zc) = (case center of None \<Rightarrow> (lit A 0, lit A 0) | Some c \<Rightarrow> c);
          angle0 = (case angle of None \<Rightarrow> lit A 0 | Some a \<Rightarrow> a);
          mode0 = (case mode of None \<Rightarrow> ''degrees'' | Some m \<Rightarrow> m);
          angle1 = (if mode0 = ''degrees'' then fradians A angle0 else angle0);
          dx = map (\<lambda>v. fsub A v xc) x;
          dz = map (\<lambda>v. fsub A v zc) z
      in bind_err
           (broadcast2 (fadd A)
              (map (\<lambda>v. fadd A xc v) (map (\<lambda>v. fmul A v (fcos A angle1)) dx))
              (map (\<lambda>v. fmul A v (fsin A angle1)) dz))
           (\<lambda>x_new.
              bind_err
                (broadcast2 (fadd A)
                   (map (\<lambda>v. fsub A zc v) (map (\<lambda>v. fmul A v (fsin A angle1)) dx))
                   (map (\<lambda>v. fmul A v (fcos A angle1)) dz))
                (\<lambda>z_new. Inr (x_new, z_new))))"

subsection \<open>plot_flight_path\<close>

text \<open>
  The state of the marching loop: the two coordinate arrays and the heading.
\<close>

record 'a state =
  sx :: "'a list"
  sz :: "'a list"
  stheta :: "'a"

text \<open>
  \<^verbatim>\<open>C = (numpy.cos(theta) - 1 / 3 * z[0] / zt) * (z[0] / zt)**0.5\<close>
\<close>

definition integration_constant :: "'a arith \<Rightarrow> 'a \<Rightarrow> 'a \<Rightarrow> 'a \<Rightarrow> 'a" where
  "integration_constant A theta z_0 zt =
     fmul A
       (fsub A (fcos A theta) (fdiv A (fmul A (fdiv A (lit A 1) (lit A 3)) z_0) zt))
       (fpow A (fdiv A z_0 zt) (lit A 0.5))"

text \<open>
  One pass of the loop body, for the index \<open>i\<close>:

  \<^verbatim>\<open>normal = numpy.array([+ numpy.cos(theta + numpy.pi / 2.0),
                      - numpy.sin(theta + numpy.pi / 2.0)])
R = radius_of_curvature(z[i - 1], zt, C)
center = numpy.array([x[i - 1], z[i - 1]]) + R * normal
dtheta = ds / R
x[i], z[i] = rotate((x[i - 1], z[i - 1]),
                    center=center, angle=dtheta, mode='radians')
theta += dtheta\<close>

  The unary plus leaves its operand as it is. \<open>x[i - 1]\<close> and \<open>z[i - 1]\<close> are
  read once each here; the reads between them change nothing.
\<close>

definition step :: "'a arith \<Rightarrow> 'a \<Rightarrow> 'a \<Rightarrow> 'a \<Rightarrow> int \<Rightarrow> 'a state \<Rightarrow> error + 'a state" where
  "step A zt C ds i s =
     (let theta = stheta s;
          normal = (fcos A (fadd A theta (fdiv A (lit A pi) (lit A 2))),
                    fneg A (fsin A (fadd A theta (fdiv A (lit A pi) (lit A 2)))))
      in bind_err (getitem (sz s) (i - 1)) (\<lambda>zp.
         let R = radius_of_curvature A zp zt C
         in bind_err (getitem (sx s) (i - 1)) (\<lambda>xp.
            let center = (fadd A xp (fmul A R (fst normal)), fadd A zp (fmul A R (snd normal)));
                dtheta = fdiv A ds R;
                (xn, zn) = rotate_point A (xp, zp) (Some center) (Some dtheta) (Some ''radians'')
            in bind_err (setitem (sx s) i xn) (\<lambda>x'.
               bind_err (setitem (sz s) i zn) (\<lambda>z'.
               Inr \<lparr>sx = x', sz = z', stheta = fadd A theta dtheta\<rparr>)))))"

text \<open>\<^verbatim>\<open>for i in range(1, N):\<close> runs the body for each index in turn; an exception ends it.\<close>

fun march :: "'a arith \<Rightarrow> 'a \<Rightarrow> 'a \<Rightarrow> 'a \<Rightarrow> int list \<Rightarrow> 'a state \<Rightarrow> error + 'a state" where
  "march A zt C ds [] s = Inr s"
| "march A zt C ds (i # is) s =
     (case step A zt C ds i s of Inl e \<Rightarrow> Inl e | Inr s' \<Rightarrow> march A zt C ds is s')"

text \<open>
  The lines before the loop:

  \<^verbatim>\<open>theta0 = numpy.radians(theta0)
x, z = numpy.zeros(N), numpy.zeros(N)
x[0], z[0], theta = 0.0, z0, theta0\<close>
\<close>

definition init_state :: "'a arith \<Rightarrow> 'a \<Rightarrow> 'a \<Rightarrow> int \<Rightarrow> error + 'a state" where
  "init_state A z0 theta0 N =
     (let theta0r = fradians A theta0
      in bind_err (zeros A N) (\<lambda>x.
         bind_err (zeros A N) (\<lambda>z.
         bind_err (setitem x 0 (lit A 0)) (\<lambda>x'.
         bind_err (setitem z 0 z0) (\<lambda>z'.
         Inr \<lparr>sx = x', sz = z', stheta = theta0r\<rparr>)))))"

text \<open>
  The loop state after the first \<open>k\<close> passes (indices \<open>1\<close> to \<open>k\<close>), with the
  constant \<open>C\<close> the code computes from \<open>z[0]\<close> before the loop and \<open>ds = 1.0\<close>.
\<close>

definition state_after :: "'a arith \<Rightarrow> 'a \<Rightarrow> 'a \<Rightarrow> 'a \<Rightarrow> int \<Rightarrow> int \<Rightarrow> error + ('a \<times> 'a state)" where
  "state_after A zt z0 theta0 N k =
     bind_err (init_state A z0 theta0 N) (\<lambda>s0.
     bind_err (getitem (sz s0) 0) (\<lambda>z_0.
     let C = integration_constant A (stheta s0) z_0 zt;
         ds = lit A 1
     in bind_err (march A zt C ds [1..k] s0) (\<lambda>s. Inr (C, s))))"

text \<open>
  What the function hands to the plotting calls that end it: the arrays \<open>x\<close> and
  \<open>z\<close> and the constant \<open>C\<close> of the title. \<open>N\<close> left out is \<open>1000\<close>.
  The Matplotlib calls themselves draw the figure and are left out.
\<close>

record 'a flight =
  fx :: "'a list"
  fz :: "'a list"
  fC :: "'a"

definition plot_flight_path ::
  "'a arith \<Rightarrow> 'a \<Rightarrow> 'a \<Rightarrow> 'a \<Rightarrow> int option \<Rightarrow> error + 'a flight" where
  "plot_flight_path A zt z0 theta0 N_arg =
     (let N = (case N_arg of None \<Rightarrow> 1000 | Some n \<Rightarrow> n)
      in bind_err (state_after A zt z0 theta0 N (N - 1)) (\<lambda>(C, s).
         Inr \<lparr>fx = sx s, fz = sz s, fC = C\<rparr>))"

text \<open>
  The loop body on values: from the previous point and the heading to the new point and
  the new heading. \<open>step\<close> stores the new point at index \<open>i\<close>
  (lemma \<open>step_in_range\<close>).
\<close>

definition advance :: "'a arith \<Rightarrow> 'a \<Rightarrow> 'a \<Rightarrow> 'a \<Rightarrow> 'a \<times> 'a \<times> 'a \<Rightarrow> 'a \<times> 'a \<times> 'a" where
  "advance A zt C ds p =
     (let (x, z, theta) = p;
          normal = (fcos A (fadd A theta (fdiv A (lit A pi) (lit A 2))),
                    fneg A (fsin A (fadd A theta (fdiv A (lit A pi) (lit A 2)))));
          R = radius_of_curvature A z zt C;
          center = (fadd A x (fmul A R (fst normal)), fadd A z (fmul A R (snd normal)));
          dtheta = fdiv A ds R;
          (x', z') = rotate_point A (x, z) (Some center) (Some dtheta) (Some ''radians'')
      in (x', z', fadd A theta dtheta))"

text \<open>The loop state the lines before the loop build when \<open>N\<close> is at least one.\<close>

definition start :: "'a arith \<Rightarrow> 'a \<Rightarrow> 'a \<Rightarrow> int \<Rightarrow> 'a state" where
  "start A z0 theta0 N =
     \<lparr>sx = (replicate (nat N) (lit A 0))[0 := lit A 0],
      sz = (replicate (nat N) (lit A 0))[0 := z0],
      stheta = fradians A theta0\<rparr>"

section \<open>Exact arithmetic with the special values\<close>

text \<open>
  An instance of the arithmetic: a number is a real number, an infinity or NaN. The
  operations give the special values where IEEE 754 and C's \<open>pow\<close> give them (a
  quotient by zero, a difference of equal infinities, a product of zero and an infinity,
  a negative base under a fractional exponent, the cosine of an infinity), and a NaN
  operand gives NaN (but for the two cases of \<open>pow\<close> named below). Finite results
  are exact: rounding, overflow and underflow are left out, and so is the sign of zero
  (a zero divisor counts as positive). A statement about this instance is a statement
  about the code in exact arithmetic.
\<close>

datatype xreal = Fin real | PInf | NInf | NaN

fun is_fin :: "xreal \<Rightarrow> bool" where
  "is_fin (Fin a) = True"
| "is_fin PInf = False"
| "is_fin NInf = False"
| "is_fin NaN = False"

fun xneg :: "xreal \<Rightarrow> xreal" where
  "xneg (Fin a) = Fin (- a)"
| "xneg PInf = NInf"
| "xneg NInf = PInf"
| "xneg NaN = NaN"

fun xadd :: "xreal \<Rightarrow> xreal \<Rightarrow> xreal" where
  "xadd (Fin a) (Fin b) = Fin (a + b)"
| "xadd (Fin a) PInf = PInf"
| "xadd (Fin a) NInf = NInf"
| "xadd PInf (Fin b) = PInf"
| "xadd PInf PInf = PInf"
| "xadd PInf NInf = NaN"
| "xadd NInf (Fin b) = NInf"
| "xadd NInf PInf = NaN"
| "xadd NInf NInf = NInf"
| "xadd NaN y = NaN"
| "xadd x NaN = NaN"

definition xsub :: "xreal \<Rightarrow> xreal \<Rightarrow> xreal" where
  "xsub x y = xadd x (xneg y)"

fun xmul :: "xreal \<Rightarrow> xreal \<Rightarrow> xreal" where
  "xmul (Fin a) (Fin b) = Fin (a * b)"
| "xmul (Fin a) PInf = (if a = 0 then NaN else if 0 < a then PInf else NInf)"
| "xmul (Fin a) NInf = (if a = 0 then NaN else if 0 < a then NInf else PInf)"
| "xmul PInf (Fin b) = (if b = 0 then NaN else if 0 < b then PInf else NInf)"
| "xmul NInf (Fin b) = (if b = 0 then NaN else if 0 < b then NInf else PInf)"
| "xmul PInf PInf = PInf"
| "xmul PInf NInf = NInf"
| "xmul NInf PInf = NInf"
| "xmul NInf NInf = PInf"
| "xmul NaN y = NaN"
| "xmul x NaN = NaN"

fun xdiv :: "xreal \<Rightarrow> xreal \<Rightarrow> xreal" where
  "xdiv (Fin a) (Fin b) =
     (if b \<noteq> 0 then Fin (a / b) else if a = 0 then NaN else if 0 < a then PInf else NInf)"
| "xdiv (Fin a) PInf = Fin 0"
| "xdiv (Fin a) NInf = Fin 0"
| "xdiv PInf (Fin b) = (if 0 \<le> b then PInf else NInf)"
| "xdiv NInf (Fin b) = (if 0 \<le> b then NInf else PInf)"
| "xdiv PInf PInf = NaN"
| "xdiv PInf NInf = NaN"
| "xdiv NInf PInf = NaN"
| "xdiv NInf NInf = NaN"
| "xdiv NaN y = NaN"
| "xdiv x NaN = NaN"

text \<open>
  \<open>**\<close> on \<open>float64\<close> is C's \<open>pow\<close>: \<open>pow(x, 0)\<close> and \<open>pow(1, y)\<close> are
  \<open>1\<close> whatever the other operand; a negative base has a power only under an integer
  exponent.
\<close>

fun xpow :: "xreal \<Rightarrow> xreal \<Rightarrow> xreal" where
  "xpow (Fin a) (Fin b) =
     (if b = 0 \<or> a = 1 then Fin 1
      else if 0 < a then Fin (a powr b)
      else if a = 0 then (if 0 < b then Fin 0 else PInf)
      else if of_int \<lfloor>b\<rfloor> = b then Fin (a powi \<lfloor>b\<rfloor>)
      else NaN)"
| "xpow (Fin a) PInf = (if \<bar>a\<bar> < 1 then Fin 0 else if \<bar>a\<bar> = 1 then Fin 1 else PInf)"
| "xpow (Fin a) NInf = (if \<bar>a\<bar> < 1 then PInf else if \<bar>a\<bar> = 1 then Fin 1 else Fin 0)"
| "xpow (Fin a) NaN = (if a = 1 then Fin 1 else NaN)"
| "xpow PInf (Fin b) = (if b = 0 then Fin 1 else if 0 < b then PInf else Fin 0)"
| "xpow PInf PInf = PInf"
| "xpow PInf NInf = Fin 0"
| "xpow PInf NaN = NaN"
| "xpow NInf (Fin b) =
     (if b = 0 then Fin 1
      else if 0 < b then (if of_int \<lfloor>b\<rfloor> = b \<and> odd \<lfloor>b\<rfloor> then NInf else PInf)
      else Fin 0)"
| "xpow NInf PInf = PInf"
| "xpow NInf NInf = Fin 0"
| "xpow NInf NaN = NaN"
| "xpow NaN (Fin b) = (if b = 0 then Fin 1 else NaN)"
| "xpow NaN PInf = NaN"
| "xpow NaN NInf = NaN"
| "xpow NaN NaN = NaN"

fun xcos :: "xreal \<Rightarrow> xreal" where
  "xcos (Fin a) = Fin (cos a)"
| "xcos PInf = NaN"
| "xcos NInf = NaN"
| "xcos NaN = NaN"

fun xsin :: "xreal \<Rightarrow> xreal" where
  "xsin (Fin a) = Fin (sin a)"
| "xsin PInf = NaN"
| "xsin NInf = NaN"
| "xsin NaN = NaN"

text \<open>\<open>numpy.radians\<close> multiplies by \<open>pi / 180\<close>.\<close>

fun xradians :: "xreal \<Rightarrow> xreal" where
  "xradians (Fin a) = Fin (a * (pi / 180))"
| "xradians PInf = PInf"
| "xradians NInf = NInf"
| "xradians NaN = NaN"

definition xarith :: "xreal arith" where
  "xarith =
     \<lparr>lit = Fin, fadd = xadd, fsub = xsub, fmul = xmul, fdiv = xdiv, fpow = xpow,
      fneg = xneg, fcos = xcos, fsin = xsin, fradians = xradians\<rparr>"



section \<open>Float64 arithmetic\<close>

text \<open>
  A second instance of the arithmetic, with rounding. \<open>rnd\<close> rounds a real number to
  the nearest binary64 number, ties to the even significand: 53 significant bits, binades
  from \<open>-1022\<close> to \<open>1023\<close>, subnormal numbers in the lowest binade, and an infinity
  when the rounded magnitude reaches \<open>2^1024\<close>. \<open>rne\<close> rounds to the nearest
  integer, ties to even.
\<close>

definition rne :: "real \<Rightarrow> int" where
  "rne t =
     (let f = \<lfloor>t\<rfloor>
      in if t - of_int f < 1 / 2 then f
         else if 1 / 2 < t - of_int f then f + 1
         else if even f then f else f + 1)"

definition binade :: "real \<Rightarrow> int" where
  "binade x = max \<lfloor>log 2 \<bar>x\<bar>\<rfloor> (- 1022)"

definition rnd :: "real \<Rightarrow> xreal" where
  "rnd x =
     (if x = 0 then Fin 0
      else let u = 2 powr of_int (binade x - 52);
               y = of_int (rne (x / u)) * u
           in if 2 ^ 1024 \<le> \<bar>y\<bar> then (if 0 < x then PInf else NInf) else Fin y)"

text \<open>The finite float64 values are the numbers that rounding leaves as they are.\<close>

definition representable :: "real \<Rightarrow> bool" where
  "representable x = (rnd x = Fin x)"

text \<open>
  Each operation of \<open>b64\<close> is the operation of the exact instance followed by
  rounding, as IEEE 754 defines \<open>+\<close>, \<open>-\<close>, \<open>*\<close> and \<open>/\<close>. \<open>pow\<close>,
  \<open>cos\<close> and \<open>sin\<close> are taken correctly rounded; the C library's functions are
  so at the arguments where C fixes their value (\<open>cos(0) = 1\<close>, \<open>sin(0) = 0\<close>,
  \<open>pow(1, y) = 1\<close>), which are the ones the statements below depend on.
  \<open>numpy.radians\<close> multiplies by the constant \<open>pi / 180.0\<close>. A literal is the
  nearest float64 number. The sign of zero is left out, as in the exact instance.
\<close>

fun round_x :: "xreal \<Rightarrow> xreal" where
  "round_x (Fin r) = rnd r"
| "round_x PInf = PInf"
| "round_x NInf = NInf"
| "round_x NaN = NaN"

definition b64 :: "xreal arith" where
  "b64 =
     \<lparr>lit = rnd,
      fadd = (\<lambda>a b. round_x (xadd a b)),
      fsub = (\<lambda>a b. round_x (xsub a b)),
      fmul = (\<lambda>a b. round_x (xmul a b)),
      fdiv = (\<lambda>a b. round_x (xdiv a b)),
      fpow = (\<lambda>a b. round_x (xpow a b)),
      fneg = xneg,
      fcos = (\<lambda>a. round_x (xcos a)),
      fsin = (\<lambda>a. round_x (xsin a)),
      fradians = (\<lambda>a. round_x (xmul a (round_x (xdiv (rnd pi) (rnd 180)))))\<rparr>"

section \<open>The loop\<close>

lemma bind_err_Inr [simp]: "bind_err (Inr v) f = f v"
  by (simp add: bind_err_def)

lemma bind_err_Inl [simp]: "bind_err (Inl e) f = Inl e"
  by (simp add: bind_err_def)

lemma getitem_in_range: "0 \<le> i \<Longrightarrow> i < int (length xs) \<Longrightarrow> getitem xs i = Inr (xs ! nat i)"
  by (simp add: getitem_def resolve_index_def)

lemma setitem_in_range:
  "0 \<le> i \<Longrightarrow> i < int (length xs) \<Longrightarrow> setitem xs i v = Inr (xs[nat i := v])"
  by (simp add: setitem_def resolve_index_def)

text \<open>Inside the arrays a pass raises nothing and writes the index \<open>i\<close> only.\<close>

lemma step_in_range:
  assumes "1 \<le> i" "i < int (length (sx s))" "length (sz s) = length (sx s)"
  shows "step A zt C ds i s =
     (let (x', z', th') = advance A zt C ds (sx s ! nat (i - 1), sz s ! nat (i - 1), stheta s)
      in Inr \<lparr>sx = (sx s)[nat i := x'], sz = (sz s)[nat i := z'], stheta = th'\<rparr>)"
  using assms
  by (simp add: step_def advance_def getitem_in_range setitem_in_range Let_def split: prod.splits)

lemma march_append:
  "march A zt C ds (is @ js) s = bind_err (march A zt C ds is s) (march A zt C ds js)"
  by (induction "is" arbitrary: s) (auto split: sum.splits)

text \<open>
  The passes for the indices \<open>a\<close> to \<open>b\<close>, all inside the arrays, end without an
  exception, keep the lengths, and leave every entry below \<open>a\<close> as it was.
\<close>

lemma march_upto:
  assumes "1 \<le> a" "b < int (length (sx s))" "length (sz s) = length (sx s)"
  shows "\<exists>s'. march A zt C ds [a..b] s = Inr s' \<and> length (sx s') = length (sx s) \<and>
           length (sz s') = length (sx s) \<and>
           (\<forall>j. int j < a \<longrightarrow> sx s' ! j = sx s ! j \<and> sz s' ! j = sz s ! j)"
  using assms
proof (induction a b arbitrary: s rule: upto.induct)
  case (1 i j)
  show ?case
  proof (cases "i \<le> j")
    case False
    then show ?thesis using 1(4) by (simp add: upto.simps)
  next
    case True
    obtain x' z' th' where adv:
      "advance A zt C ds (sx s ! nat (i - 1), sz s ! nat (i - 1), stheta s) = (x', z', th')"
      using prod_cases3 by blast
    define s1 where "s1 = \<lparr>sx = (sx s)[nat i := x'], sz = (sz s)[nat i := z'], stheta = th'\<rparr>"
    have st: "step A zt C ds i s = Inr s1"
      using step_in_range[of i s A zt C ds] True 1(2,3,4) adv by (simp add: s1_def)
    have "\<exists>s'. march A zt C ds [i + 1..j] s1 = Inr s' \<and> length (sx s') = length (sx s1) \<and>
           length (sz s') = length (sx s1) \<and>
           (\<forall>k. int k < i + 1 \<longrightarrow> sx s' ! k = sx s1 ! k \<and> sz s' ! k = sz s1 ! k)"
      using 1(1)[OF True, of s1] 1(2,3,4) by (simp add: s1_def)
    then obtain s' where s': "march A zt C ds [i + 1..j] s1 = Inr s'"
        "length (sx s') = length (sx s1)" "length (sz s') = length (sx s1)"
        "\<forall>k. int k < i + 1 \<longrightarrow> sx s' ! k = sx s1 ! k \<and> sz s' ! k = sz s1 ! k"
      by blast
    have "march A zt C ds [i..j] s = Inr s'"
      using True st s'(1) by (simp add: upto.simps[of i j])
    moreover have "\<forall>k. int k < i \<longrightarrow> sx s' ! k = sx s ! k \<and> sz s' ! k = sz s ! k"
      using s'(4) 1(2) by (auto simp: s1_def)
    ultimately show ?thesis using s'(2,3) by (simp add: s1_def)
  qed
qed

lemma init_state_ok:
  assumes "1 \<le> N"
  shows "init_state A z0 theta0 N = Inr (start A z0 theta0 N)"
  using assms by (simp add: init_state_def zeros_def setitem_in_range Let_def start_def)

lemma start_simps:
  "length (sx (start A z0 theta0 N)) = nat N"
  "length (sz (start A z0 theta0 N)) = nat N"
  "stheta (start A z0 theta0 N) = fradians A theta0"
  "1 \<le> N \<Longrightarrow> sx (start A z0 theta0 N) ! 0 = lit A 0"
  "1 \<le> N \<Longrightarrow> sz (start A z0 theta0 N) ! 0 = z0"
  by (simp_all add: start_def)

lemma state_after_march:
  assumes "1 \<le> N"
  shows "state_after A zt z0 theta0 N k =
           bind_err (march A zt (integration_constant A (fradians A theta0) z0 zt) (lit A 1)
                       [1..k] (start A z0 theta0 N))
             (\<lambda>s. Inr (integration_constant A (fradians A theta0) z0 zt, s))"
  using assms
  by (simp add: state_after_def init_state_ok getitem_in_range Let_def start_simps)

lemma state_after_0:
  assumes "1 \<le> N"
  shows "state_after A zt z0 theta0 N 0 =
           Inr (integration_constant A (fradians A theta0) z0 zt, start A z0 theta0 N)"
  by (simp add: state_after_march[OF assms])

lemma state_after_ok:
  assumes "1 \<le> N" "k < N"
  shows "\<exists>s. state_after A zt z0 theta0 N k =
               Inr (integration_constant A (fradians A theta0) z0 zt, s) \<and>
             length (sx s) = nat N \<and> length (sz s) = nat N \<and>
             sx s ! 0 = lit A 0 \<and> sz s ! 0 = z0"
proof -
  let ?C = "integration_constant A (fradians A theta0) z0 zt"
  let ?s0 = "start A z0 theta0 N"
  have "\<exists>s'. march A zt ?C (lit A 1) [1..k] ?s0 = Inr s' \<and> length (sx s') = length (sx ?s0) \<and>
           length (sz s') = length (sx ?s0) \<and>
           (\<forall>j. int j < 1 \<longrightarrow> sx s' ! j = sx ?s0 ! j \<and> sz s' ! j = sz ?s0 ! j)"
    using assms by (intro march_upto) (simp_all add: start_simps)
  then obtain s' where s': "march A zt ?C (lit A 1) [1..k] ?s0 = Inr s'"
      "length (sx s') = length (sx ?s0)" "length (sz s') = length (sx ?s0)"
      "\<forall>j. int j < 1 \<longrightarrow> sx s' ! j = sx ?s0 ! j \<and> sz s' ! j = sz ?s0 ! j"
    by blast
  have "sx s' ! 0 = lit A 0" "sz s' ! 0 = z0"
    using s'(4) assms(1) by (simp_all add: start_simps)
  then show ?thesis
    using s'(1,2,3) assms(1) by (simp add: state_after_march start_simps)
qed

text \<open>Pass \<open>k\<close> takes the state after \<open>k - 1\<close> passes to the state after \<open>k\<close>.\<close>

lemma state_after_step:
  assumes "1 \<le> k" "k < N" and prev: "state_after A zt z0 theta0 N (k - 1) = Inr (C, s)"
  shows "state_after A zt z0 theta0 N k =
           (let (x', z', th') =
                  advance A zt C (lit A 1) (sx s ! nat (k - 1), sz s ! nat (k - 1), stheta s)
            in Inr (C, \<lparr>sx = (sx s)[nat k := x'], sz = (sz s)[nat k := z'], stheta = th'\<rparr>))"
proof -
  have N: "1 \<le> N" using assms by simp
  let ?C = "integration_constant A (fradians A theta0) z0 zt"
  obtain s1 where s1: "state_after A zt z0 theta0 N (k - 1) = Inr (?C, s1)"
      "length (sx s1) = nat N" "length (sz s1) = nat N"
    using state_after_ok[OF N, of "k - 1" A zt z0 theta0] assms(2) by auto
  have eq: "C = ?C" "s1 = s" using s1(1) prev by simp_all
  have m: "march A zt ?C (lit A 1) [1..k - 1] (start A z0 theta0 N) = Inr s"
    using s1(1) eq by (simp add: state_after_march[OF N] bind_err_def split: sum.splits)
  have up: "[1..k] = [1..k - 1] @ [k]"
    using assms(1) upto_rec2[of 1 k] by simp
  have st: "step A zt ?C (lit A 1) k s =
     (let (x', z', th') =
            advance A zt ?C (lit A 1) (sx s ! nat (k - 1), sz s ! nat (k - 1), stheta s)
      in Inr \<lparr>sx = (sx s)[nat k := x'], sz = (sz s)[nat k := z'], stheta = th'\<rparr>)"
    using assms(1,2) s1(2,3) eq by (intro step_in_range) simp_all
  show ?thesis
    unfolding state_after_march[OF N] up march_append m
    by (simp add: st eq Let_def split: prod.splits)
qed

text \<open>The passes after pass \<open>i\<close> leave the points up to \<open>i\<close> as they are.\<close>

lemma state_after_later:
  assumes "0 \<le> i" "i \<le> k" "k < N" and at: "state_after A zt z0 theta0 N i = Inr (C, s)"
  shows "\<exists>s'. state_after A zt z0 theta0 N k = Inr (C, s') \<and>
           (\<forall>j. int j \<le> i \<longrightarrow> sx s' ! j = sx s ! j \<and> sz s' ! j = sz s ! j)"
proof -
  have N: "1 \<le> N" using assms by simp
  let ?C = "integration_constant A (fradians A theta0) z0 zt"
  obtain s1 where s1: "state_after A zt z0 theta0 N i = Inr (?C, s1)"
      "length (sx s1) = nat N" "length (sz s1) = nat N"
    using state_after_ok[OF N, of i A zt z0 theta0] assms by auto
  have eq: "C = ?C" "s1 = s" using s1(1) at by simp_all
  have m: "march A zt ?C (lit A 1) [1..i] (start A z0 theta0 N) = Inr s"
    using s1(1) eq by (simp add: state_after_march[OF N] bind_err_def split: sum.splits)
  have up: "[1..k] = [1..i] @ [i + 1..k]"
  proof (cases "1 \<le> i")
    case True
    then show ?thesis using assms(2) upto_split2[of 1 i k] by simp
  next
    case False
    then have "i = 0" using assms(1) by simp
    then show ?thesis by simp
  qed
  have "\<exists>s'. march A zt ?C (lit A 1) [i + 1..k] s = Inr s' \<and> length (sx s') = length (sx s) \<and>
           length (sz s') = length (sx s) \<and>
           (\<forall>j. int j < i + 1 \<longrightarrow> sx s' ! j = sx s ! j \<and> sz s' ! j = sz s ! j)"
    using assms s1(2,3) eq by (intro march_upto) simp_all
  then obtain s' where s': "march A zt ?C (lit A 1) [i + 1..k] s = Inr s'"
      "\<forall>j. int j < i + 1 \<longrightarrow> sx s' ! j = sx s ! j \<and> sz s' ! j = sz s ! j"
    by blast
  have "state_after A zt z0 theta0 N k = Inr (C, s')"
    unfolding state_after_march[OF N] up march_append m by (simp add: s'(1) eq)
  then show ?thesis using s'(2) by auto
qed

lemma plot_flight_path_state_after:
  assumes "state_after A zt z0 theta0 N (N - 1) = Inr (C, s)"
  shows "plot_flight_path A zt z0 theta0 (Some N) = Inr \<lparr>fx = sx s, fz = sz s, fC = C\<rparr>"
  using assms by (simp add: plot_flight_path_def)

lemma plot_flight_path_ok:
  assumes "1 \<le> N"
  shows "\<exists>s. state_after A zt z0 theta0 N (N - 1) =
               Inr (integration_constant A (fradians A theta0) z0 zt, s) \<and>
             plot_flight_path A zt z0 theta0 (Some N) =
               Inr \<lparr>fx = sx s, fz = sz s,
                    fC = integration_constant A (fradians A theta0) z0 zt\<rparr> \<and>
             length (sx s) = nat N \<and> length (sz s) = nat N \<and>
             sx s ! 0 = lit A 0 \<and> sz s ! 0 = z0"
proof -
  obtain s where s: "state_after A zt z0 theta0 N (N - 1) =
               Inr (integration_constant A (fradians A theta0) z0 zt, s)"
      "length (sx s) = nat N" "length (sz s) = nat N" "sx s ! 0 = lit A 0" "sz s ! 0 = z0"
    using state_after_ok[OF assms, of "N - 1" A zt z0 theta0] by auto
  show ?thesis
    using s plot_flight_path_state_after[OF s(1)] by blast
qed

text \<open>
  Point \<open>i\<close> of the returned path is the loop body applied to point \<open>i - 1\<close> of the
  returned path and the heading the loop holds before pass \<open>i\<close>.
\<close>

lemma path_step:
  assumes "1 \<le> i" "i < N"
  shows "\<exists>r s s'.
      plot_flight_path A zt z0 theta0 (Some N) = Inr r \<and>
      fC r = integration_constant A (fradians A theta0) z0 zt \<and>
      state_after A zt z0 theta0 N (i - 1) = Inr (fC r, s) \<and>
      state_after A zt z0 theta0 N i = Inr (fC r, s') \<and>
      sx s ! nat (i - 1) = fx r ! nat (i - 1) \<and>
      sz s ! nat (i - 1) = fz r ! nat (i - 1) \<and>
      (fx r ! nat i, fz r ! nat i, stheta s') =
        advance A zt (fC r) (lit A 1) (fx r ! nat (i - 1), fz r ! nat (i - 1), stheta s)"
proof -
  have N: "1 \<le> N" using assms by simp
  let ?C = "integration_constant A (fradians A theta0) z0 zt"
  obtain sN where sN: "state_after A zt z0 theta0 N (N - 1) = Inr (?C, sN)"
      "plot_flight_path A zt z0 theta0 (Some N) = Inr \<lparr>fx = sx sN, fz = sz sN, fC = ?C\<rparr>"
    using plot_flight_path_ok[OF N, of A zt z0 theta0] by auto
  obtain s where s: "state_after A zt z0 theta0 N (i - 1) = Inr (?C, s)"
      "length (sx s) = nat N" "length (sz s) = nat N"
    using state_after_ok[OF N, of "i - 1" A zt z0 theta0] assms by auto
  obtain x' z' th' where adv:
      "advance A zt ?C (lit A 1) (sx s ! nat (i - 1), sz s ! nat (i - 1), stheta s) = (x', z', th')"
    using prod_cases3 by blast
  define s' where "s' = \<lparr>sx = (sx s)[nat i := x'], sz = (sz s)[nat i := z'], stheta = th'\<rparr>"
  have s'_eq: "state_after A zt z0 theta0 N i = Inr (?C, s')"
    using state_after_step[OF assms s(1)] adv by (simp add: s'_def)
  have at_i: "sx s' ! nat i = x'" "sz s' ! nat i = z'"
    using assms s(2,3) by (simp_all add: s'_def)
  have "\<exists>t. state_after A zt z0 theta0 N (N - 1) = Inr (?C, t) \<and>
           (\<forall>j. int j \<le> i - 1 \<longrightarrow> sx t ! j = sx s ! j \<and> sz t ! j = sz s ! j)"
    using assms by (intro state_after_later[OF _ _ _ s(1)]) simp_all
  then have prev: "sx sN ! nat (i - 1) = sx s ! nat (i - 1)"
      "sz sN ! nat (i - 1) = sz s ! nat (i - 1)"
    using sN(1) assms(1) by auto
  have "\<exists>t. state_after A zt z0 theta0 N (N - 1) = Inr (?C, t) \<and>
           (\<forall>j. int j \<le> i \<longrightarrow> sx t ! j = sx s' ! j \<and> sz t ! j = sz s' ! j)"
    using assms by (intro state_after_later[OF _ _ _ s'_eq]) simp_all
  then have cur: "sx sN ! nat i = x'" "sz sN ! nat i = z'"
    using sN(1) assms(1) at_i by auto
  have th: "stheta s' = th'" by (simp add: s'_def)
  show ?thesis
    apply (rule exI[of _ "\<lparr>fx = sx sN, fz = sz sN, fC = ?C\<rparr>"])
    apply (rule exI[of _ s])
    apply (rule exI[of _ s'])
    using sN(2) s(1) s'_eq adv prev cur th
    by simp
qed

section \<open>Lemmas on the exact arithmetic\<close>

lemma xarith_simps [simp]:
  "lit xarith = Fin" "fadd xarith = xadd" "fsub xarith = xsub" "fmul xarith = xmul"
  "fdiv xarith = xdiv" "fpow xarith = xpow" "fneg xarith = xneg" "fcos xarith = xcos"
  "fsin xarith = xsin" "fradians xarith = xradians"
  by (simp_all add: xarith_def)

lemma xsub_Fin [simp]: "xsub (Fin a) (Fin b) = Fin (a - b)"
  by (simp add: xsub_def)

lemma xadd_NaN_right [simp]: "xadd x NaN = NaN"
  by (cases x) simp_all

lemma xmul_NaN_right [simp]: "xmul x NaN = NaN"
  by (cases x) simp_all

lemma xdiv_NaN_right [simp]: "xdiv x NaN = NaN"
  by (cases x) simp_all

lemma xsub_NaN [simp]: "xsub x NaN = NaN" "xsub NaN y = NaN"
  by (simp_all add: xsub_def)




subsection \<open>The radius of curvature at a degenerate depth\<close>



subsection \<open>Rotation of finite and of lost points\<close>

lemma rotate_point_NaN_difference:
  assumes "xsub x xc = NaN \<or> xsub z zc = NaN \<or> xcos a = NaN"
  shows "rotate_point xarith (x, z) (Some (xc, zc)) (Some a) (Some ''radians'') = (NaN, NaN)"
proof -
  have s: "xcos a = NaN \<Longrightarrow> xsin a = NaN"
    by (cases a) simp_all
  show ?thesis
    using assms s by (auto simp: rotate_point_def)
qed

lemma rotation_preserves_distance:
  fixes dx dz a :: real
  shows "(dx * cos a + dz * sin a)\<^sup>2 + (- (dx * sin a) + dz * cos a)\<^sup>2 = dx\<^sup>2 + dz\<^sup>2"
proof -
  have "(dx * c + dz * s)\<^sup>2 + (- (dx * s) + dz * c)\<^sup>2 = (dx\<^sup>2 + dz\<^sup>2) * (s\<^sup>2 + c\<^sup>2)"
    for c s :: real
    by (simp add: power2_eq_square algebra_simps)
  from this[of "cos a" "sin a"] show ?thesis
    by (simp only: sin_cos_squared_add mult_1_right)
qed

lemma rotate_point_finite:
  "\<exists>a1. rotate_point xarith (Fin x, Fin z) (Some (Fin xc, Fin zc)) (Some (Fin a)) mode =
     (Fin (xc + (x - xc) * cos a1 + (z - zc) * sin a1),
      Fin (zc - (x - xc) * sin a1 + (z - zc) * cos a1))"
  by (cases "(case mode of None \<Rightarrow> ''degrees'' | Some m \<Rightarrow> m) = ''degrees''")
    (auto simp: rotate_point_def Let_def)

lemma rotate_point_isometry:
  "\<exists>x' z'. rotate_point xarith (Fin x, Fin z) (Some (Fin xc, Fin zc)) (Some (Fin a)) mode =
             (Fin x', Fin z') \<and>
           sqrt ((x' - xc)\<^sup>2 + (z' - zc)\<^sup>2) = sqrt ((x - xc)\<^sup>2 + (z - zc)\<^sup>2)"
proof -
  obtain a1 where r:
    "rotate_point xarith (Fin x, Fin z) (Some (Fin xc, Fin zc)) (Some (Fin a)) mode =
       (Fin (xc + (x - xc) * cos a1 + (z - zc) * sin a1),
        Fin (zc - (x - xc) * sin a1 + (z - zc) * cos a1))"
    using rotate_point_finite by blast
  have "(xc + (x - xc) * cos a1 + (z - zc) * sin a1 - xc)\<^sup>2 +
        (zc - (x - xc) * sin a1 + (z - zc) * cos a1 - zc)\<^sup>2 = (x - xc)\<^sup>2 + (z - zc)\<^sup>2"
    using rotation_preserves_distance[of "x - xc" a1 "z - zc"] by simp
  then show ?thesis using r by auto
qed

lemma rotate_zero_point:
  assumes "angle = None \<or> angle = Some (Fin 0)"
    and "center = None \<or> center = Some (Fin xc, Fin zc)"
  shows "rotate_point xarith (Fin x, Fin z) center angle mode = (Fin x, Fin z)"
  using assms by (auto simp: rotate_point_def Let_def)

lemma broadcast2_same_length:
  "length xs = length ys \<Longrightarrow> broadcast2 f xs ys = Inr (map2 f xs ys)"
  by (simp add: broadcast2_def)

text \<open>On arrays of one length \<open>rotate\<close> works point by point.\<close>

lemma rotate_arrays_elementwise:
  assumes "length xs = length zs"
  shows "rotate_arrays A (xs, zs) center angle mode =
           Inr (map (\<lambda>p. fst (rotate_point A p center angle mode)) (zip xs zs),
                map (\<lambda>p. snd (rotate_point A p center angle mode)) (zip xs zs))"
proof -
  have m2: "map2 f (map g as) (map h bs) = map (\<lambda>(a, b). f (g a) (h b)) (zip as bs)"
    for f :: "'a \<Rightarrow> 'a \<Rightarrow> 'a" and g h :: "'a \<Rightarrow> 'a" and as bs :: "'a list"
    by (auto simp: zip_map_map)
  show ?thesis
    using assms
    by (simp add: rotate_arrays_def rotate_point_def broadcast2_same_length Let_def m2
        split: prod.splits option.splits)
qed

subsection \<open>The loop body on finite and on lost points\<close>




lemma advance_finite:
  assumes "radius_of_curvature xarith (Fin zp) zt C = Fin R" "R \<noteq> 0"
  shows "\<exists>x1 z1 th1.
           advance xarith zt C (Fin 1) (Fin xp, Fin zp, Fin th) = (Fin x1, Fin z1, Fin th1) \<and>
           sqrt ((x1 - (xp + R * cos (th + pi / 2)))\<^sup>2 +
                 (z1 - (zp + R * (- sin (th + pi / 2))))\<^sup>2) = \<bar>R\<bar>"
proof -
  let ?cx = "xp + R * cos (th + pi / 2)"
  let ?cz = "zp + R * (- sin (th + pi / 2))"
  obtain x1 z1 where rot:
      "rotate_point xarith (Fin xp, Fin zp) (Some (Fin ?cx, Fin ?cz)) (Some (Fin (1 / R)))
          (Some ''radians'') = (Fin x1, Fin z1)"
      "sqrt ((x1 - ?cx)\<^sup>2 + (z1 - ?cz)\<^sup>2) = sqrt ((xp - ?cx)\<^sup>2 + (zp - ?cz)\<^sup>2)"
    using rotate_point_isometry[of xp zp ?cx ?cz "1 / R" "Some ''radians''"] by blast
  have "(xp - (xp + R * c))\<^sup>2 + (zp - (zp + R * (- s)))\<^sup>2 = R\<^sup>2 * (s\<^sup>2 + c\<^sup>2)"
    for c s :: real
    by (simp add: power2_eq_square algebra_simps)
  from this[of "cos (th + pi / 2)" "sin (th + pi / 2)"]
  have "(xp - ?cx)\<^sup>2 + (zp - ?cz)\<^sup>2 = R\<^sup>2"
    by (simp only: sin_cos_squared_add mult_1_right)
  then have d: "sqrt ((xp - ?cx)\<^sup>2 + (zp - ?cz)\<^sup>2) = \<bar>R\<bar>"
    by simp
  have adv: "advance xarith zt C (Fin 1) (Fin xp, Fin zp, Fin th) =
               (Fin x1, Fin z1, Fin (th + 1 / R))"
    using assms rot(1) by (simp add: advance_def Let_def)
  show ?thesis
    using adv rot(2) d by simp
qed


section \<open>Lemmas on float64 rounding\<close>

lemma rne_of_int [simp]: "rne (of_int n) = n"
  by (simp add: rne_def)

lemma rne_cases: "rne t = \<lfloor>t\<rfloor> \<or> rne t = \<lfloor>t\<rfloor> + 1"
  by (simp add: rne_def Let_def)

lemma rne_le: "t \<le> of_int n \<Longrightarrow> rne t \<le> n"
proof -
  assume a: "t \<le> of_int n"
  then have f: "\<lfloor>t\<rfloor> \<le> n" by (simp add: floor_le_iff) 
  show ?thesis
  proof (cases "\<lfloor>t\<rfloor> = n")
    case True
    then have "t = of_int n" using a by (metis of_int_floor_le order_antisym)
    then show ?thesis by simp
  next
    case False
    then show ?thesis using f rne_cases[of t] by auto
  qed
qed

lemma rne_ge: "of_int n \<le> t \<Longrightarrow> n \<le> rne t"
proof -
  assume "of_int n \<le> t"
  then have "n \<le> \<lfloor>t\<rfloor>" by (simp add: le_floor_iff)
  then show ?thesis using rne_cases[of t] by auto
qed

lemma binade_eqI:
  assumes "2 powr of_int k \<le> \<bar>x\<bar>" "\<bar>x\<bar> < 2 powr of_int (k + 1)" "- 1022 \<le> k"
  shows "binade x = k"
proof -
  have "0 < \<bar>x\<bar>" using assms(1) by (smt (verit) powr_gt_zero)
  then have "\<lfloor>log 2 \<bar>x\<bar>\<rfloor> = k"
    using assms(1,2) by (simp add: floor_log_eq_powr_iff)
  then show ?thesis using assms(3) by (simp add: binade_def)
qed

lemma binade_subnormal:
  assumes "x \<noteq> 0" "\<bar>x\<bar> < 2 powr of_int (- 1021)"
  shows "binade x = - 1022"
proof -
  have pos: "0 < \<bar>x\<bar>" using assms(1) by simp
  define k where "k = \<lfloor>log 2 \<bar>x\<bar>\<rfloor>"
  have "2 powr of_int k \<le> \<bar>x\<bar>"
    using pos floor_log_eq_powr_iff[of "\<bar>x\<bar>" 2 k] by (simp add: k_def)
  then have "2 powr of_int k < (2::real) powr of_int (- 1021)" using assms(2) by linarith
  then have "k < - 1021" by simp
  then show ?thesis by (simp add: binade_def k_def)
qed

lemma binade_bounds:
  assumes "x \<noteq> 0"
  shows "\<bar>x\<bar> < 2 powr of_int (binade x + 1)"
    and "- 1022 < binade x \<Longrightarrow> 2 powr of_int (binade x) \<le> \<bar>x\<bar>"
    and "- 1022 \<le> binade x"
proof -
  have pos: "0 < \<bar>x\<bar>" using assms by simp
  define k where "k = \<lfloor>log 2 \<bar>x\<bar>\<rfloor>"
  have b: "2 powr of_int k \<le> \<bar>x\<bar>" "\<bar>x\<bar> < 2 powr of_int (k + 1)"
    using pos floor_log_eq_powr_iff[of "\<bar>x\<bar>" 2 k] by (simp_all add: k_def)
  have "k \<le> binade x" by (simp add: binade_def k_def)
  then have "(2::real) powr of_int (k + 1) \<le> 2 powr of_int (binade x + 1)" by simp
  then show "\<bar>x\<bar> < 2 powr of_int (binade x + 1)" using b(2) by linarith
  show "- 1022 < binade x \<Longrightarrow> 2 powr of_int (binade x) \<le> \<bar>x\<bar>"
    using b(1) by (auto simp: binade_def k_def max_def split: if_splits)
  show "- 1022 \<le> binade x" by (simp add: binade_def)
qed

lemma pow2_split: "(2::real) powr of_int (k + int n) = 2 powr of_int k * 2 ^ n"
  by (simp add: powr_add powr_realpow)

lemma rnd_eqI:
  assumes "x \<noteq> 0" "binade x = k"
    and "of_int (rne (x / 2 powr of_int (k - 52))) * 2 powr of_int (k - 52) = y"
    and "\<bar>y\<bar> < 2 ^ 1024"
  shows "rnd x = Fin y"
  using assms by (simp add: rnd_def Let_def)

lemma rnd_representable:
  assumes "rnd x = Fin y"
  shows "rnd y = Fin y"
proof (cases "x = 0 \<or> y = 0")
  case True
  then show ?thesis using assms by (auto simp: rnd_def)
next
  case False
  then have x: "x \<noteq> 0" and y0: "y \<noteq> 0" by simp_all
  define e where "e = binade x"
  define u :: real where "u = 2 powr of_int (e - 52)"
  define m where "m = rne (x / u)"
  have u: "0 < u" by (simp add: u_def algebra_simps)
  have y: "y = of_int m * u" and fin: "\<bar>y\<bar> < 2 ^ 1024"
    using assms x by (auto simp: rnd_def Let_def e_def u_def m_def split: if_splits)
  have m0: "m \<noteq> 0" using y y0 by auto
  have absy: "\<bar>y\<bar> = of_int \<bar>m\<bar> * u" using u by (simp add: y abs_mult)
  have up: "2 powr of_int (e + 1) = 2 ^ 53 * u"
    using pow2_split[of "e - 52" 53] by (simp add: u_def algebra_simps)
  have lo: "2 powr of_int e = 2 ^ 52 * u"
    using pow2_split[of "e - 52" 52] by (simp add: u_def algebra_simps)
  have xb: "\<bar>x\<bar> < 2 ^ 53 * u"
    using binade_bounds(1)[OF x] up by (simp add: e_def)
  then have q: "\<bar>x / u\<bar> < 2 ^ 53" using u by (simp add: field_simps abs_mult)
  have mle: "\<bar>m\<bar> \<le> 2 ^ 53"
  proof -
    have "x / u \<le> 2 ^ 53" "- (2 ^ 53) \<le> x / u" using q by linarith+
    then have b: "x / u \<le> of_int (2 ^ 53)" "of_int (- (2 ^ 53)) \<le> x / u" by simp_all
    have "m \<le> 2 ^ 53" unfolding m_def using b(1) by (rule rne_le)
    moreover have "- (2 ^ 53) \<le> m" unfolding m_def using b(2) by (rule rne_ge)
    ultimately show ?thesis by simp
  qed
  have e_ge: "- 1022 \<le> e" using binade_bounds(3)[OF x] by (simp add: e_def)
  show ?thesis
  proof (cases "\<bar>m\<bar> = 2 ^ 53")
    case True
    then have ay: "\<bar>y\<bar> = 2 powr of_int (e + 1)" using absy up by simp
    have "\<bar>y\<bar> < 2 powr of_int (e + 1 + 1)"
      unfolding ay by simp
    then have b: "binade y = e + 1"
      using ay e_ge by (intro binade_eqI) simp_all
    have u2: "2 powr of_int (e + 1 - 52) = 2 * u"
      using pow2_split[of "e - 52" 1] by (simp add: u_def algebra_simps)
    have "m = 2 ^ 53 \<or> m = - (2 ^ 53)" using True by (simp add: abs_if split: if_splits)
    then have "m = 2 * 2 ^ 52 \<or> m = 2 * - (2 ^ 52)" by simp
    then obtain h where h: "m = 2 * h" by blast
    have "y / (2 * u) = of_int h" using u by (simp add: y h)
    then have "of_int (rne (y / (2 * u))) * (2 * u) = y"
      using u by (simp add: y h)
    then have "of_int (rne (y / 2 powr of_int (e + 1 - 52))) * 2 powr of_int (e + 1 - 52) = y"
      unfolding u2 .
    with y0 b show ?thesis
      using fin by (intro rnd_eqI)
  next
    case False
    then have mlt: "\<bar>m\<bar> < 2 ^ 53" using mle by simp
    then have "of_int \<bar>m\<bar> < (2 ^ 53 :: real)"
      using of_int_less_iff[of "\<bar>m\<bar>" "2 ^ 53", where ?'a = real] by simp
    then have ylt: "\<bar>y\<bar> < 2 powr of_int (e + 1)"
      unfolding absy up using u by simp
    have b: "binade y = e"
    proof (cases "- 1022 < e")
      case True
      have xlo: "2 ^ 52 * u \<le> \<bar>x\<bar>"
        using binade_bounds(2)[OF x] True lo by (simp add: e_def)
      have "2 ^ 52 \<le> \<bar>m\<bar>"
      proof (cases "0 < x")
        case True
        then have "of_int (2 ^ 52) \<le> x / u" using xlo u by (simp add: field_simps)
        then have "2 ^ 52 \<le> m" unfolding m_def by (rule rne_ge)
        then show ?thesis by simp
      next
        case False
        then have "x / u \<le> of_int (- (2 ^ 52))" using xlo u x by (simp add: field_simps)
        then have "m \<le> - (2 ^ 52)" unfolding m_def by (rule rne_le)
        then show ?thesis by simp
      qed
      then have "(2 ^ 52 :: real) \<le> of_int \<bar>m\<bar>"
        using of_int_le_iff[of "2 ^ 52" "\<bar>m\<bar>", where ?'a = real] by simp
      then have "2 powr of_int e \<le> \<bar>y\<bar>"
        unfolding absy lo using u by simp
      then show ?thesis using ylt e_ge by (intro binade_eqI)
    next
      case False
      then have "e = - 1022" using e_ge by simp
      then show ?thesis using binade_subnormal[OF y0] ylt by simp
    qed
    have "of_int (rne (y / u)) * u = y" using u by (simp add: y)
    then have "of_int (rne (y / 2 powr of_int (e - 52))) * 2 powr of_int (e - 52) = y"
      unfolding u_def .
    with y0 b show ?thesis
      using fin by (intro rnd_eqI)
  qed
qed

lemma pow2_less_D: "(2::real) powr of_int a < 2 powr of_int b \<Longrightarrow> a < b"
  by simp

lemma pow2_mono: "a \<le> b \<Longrightarrow> (2::real) powr of_int a \<le> 2 powr of_int b"
  by simp

lemma pow2_nat: "(2::real) powr of_int (int n) = 2 ^ n"
  by (simp add: powr_realpow)

lemma rnd_0 [simp]: "rnd 0 = Fin 0"
  by (simp add: rnd_def)

lemma round_x_idem [simp]: "round_x (round_x a) = round_x a"
proof (cases a)
  case (Fin r)
  show ?thesis
  proof (cases "rnd r")
    case (Fin y)
    then show ?thesis using rnd_representable[OF Fin] \<open>a = Fin r\<close> by simp
  qed (simp_all add: \<open>a = Fin r\<close>)
qed simp_all

lemma representable_rnd: "rnd x = Fin y \<Longrightarrow> representable y"
  by (simp add: representable_def rnd_representable)

text \<open>A number \<open>m * 2^k\<close> with \<open>|m| < 2^53\<close> and \<open>-1074 \<le> k \<le> 971\<close> is a float.\<close>

lemma representableI:
  assumes "x = of_int m * 2 powr of_int k" "\<bar>m\<bar> < 2 ^ 53" "- 1074 \<le> k" "k \<le> 971"
  shows "representable x"
proof (cases "m = 0")
  case True
  then show ?thesis using assms(1) by (simp add: representable_def)
next
  case False
  have p: "0 < (2::real) powr of_int k" by simp
  have x0: "x \<noteq> 0" using False assms(1) by simp
  have absx: "\<bar>x\<bar> = of_int \<bar>m\<bar> * 2 powr of_int k" using assms(1) by (simp add: abs_mult)
  have "of_int \<bar>m\<bar> < (2 ^ 53 :: real)"
    using assms(2) of_int_less_iff[of "\<bar>m\<bar>" "2 ^ 53", where ?'a = real] by simp
  then have xlt: "\<bar>x\<bar> < 2 powr of_int (k + 53)"
    unfolding absx using pow2_split[of k 53] by simp
  define e where "e = binade x"
  have e_le: "e \<le> k + 52"
  proof (cases "- 1022 < e")
    case True
    then have "2 powr of_int e \<le> \<bar>x\<bar>" using binade_bounds(2)[OF x0] by (simp add: e_def)
    then have "(2::real) powr of_int e < 2 powr of_int (k + 53)" using xlt by linarith
    then show ?thesis by simp
  next
    case False
    then show ?thesis using assms(3) by simp
  qed
  define n where "n = nat (k - (e - 52))"
  have k: "k = (e - 52) + int n" using e_le by (simp add: n_def)
  have ksplit: "(2::real) powr of_int k = 2 powr of_int (e - 52) * 2 ^ n"
    by (subst k) (rule pow2_split)
  then have "x / 2 powr of_int (e - 52) = of_int (m * 2 ^ n)"
    using assms(1) by simp
  then have r: "of_int (rne (x / 2 powr of_int (e - 52))) * 2 powr of_int (e - 52) = x"
    by (simp only: rne_of_int) (simp add: assms(1) ksplit)
  have "(2::real) powr of_int (k + 53) \<le> 2 powr of_int (int 1024)"
    using assms(4) by (intro pow2_mono) simp
  then have "(2::real) powr of_int (k + 53) \<le> 2 ^ 1024"
    by (simp only: pow2_nat)
  then have "\<bar>x\<bar> < 2 ^ 1024" using xlt by linarith
  then have "rnd x = Fin x"
    using x0 r by (intro rnd_eqI[where k = e]) (simp_all add: e_def)
  then show ?thesis by (simp add: representable_def)
qed

lemma rnd_finite:
  assumes "\<bar>x\<bar> < 2 ^ 1023"
  shows "\<exists>y. rnd x = Fin y \<and> \<bar>y\<bar> \<le> 2 ^ 1023"
proof (cases "x = 0")
  case True
  then show ?thesis by simp
next
  case False
  define e where "e = binade x"
  define u :: real where "u = 2 powr of_int (e - 52)"
  define m where "m = rne (x / u)"
  have u: "0 < u" by (simp add: u_def)
  have up: "2 powr of_int (e + 1) = 2 ^ 53 * u"
    using pow2_split[of "e - 52" 53] by (simp add: u_def algebra_simps)
  have "\<bar>x\<bar> < 2 ^ 53 * u"
    using binade_bounds(1)[OF False] up by (simp add: e_def)
  then have q: "\<bar>x / u\<bar> < 2 ^ 53" using u by (simp add: field_simps abs_mult)
  have mle: "\<bar>m\<bar> \<le> 2 ^ 53"
  proof -
    have "x / u \<le> 2 ^ 53" "- (2 ^ 53) \<le> x / u" using q by linarith+
    then have b: "x / u \<le> of_int (2 ^ 53)" "of_int (- (2 ^ 53)) \<le> x / u" by simp_all
    have "m \<le> 2 ^ 53" unfolding m_def using b(1) by (rule rne_le)
    moreover have "- (2 ^ 53) \<le> m" unfolding m_def using b(2) by (rule rne_ge)
    ultimately show ?thesis by simp
  qed
  then have "of_int \<bar>m\<bar> \<le> (2 ^ 53 :: real)"
    using of_int_le_iff[of "\<bar>m\<bar>" "2 ^ 53", where ?'a = real] by simp
  then have y: "\<bar>of_int m * u\<bar> \<le> 2 powr of_int (e + 1)"
    unfolding up using u by (simp add: abs_mult)
  have "e \<le> 1022"
  proof (cases "- 1022 < e")
    case True
    then have "2 powr of_int e \<le> \<bar>x\<bar>" using binade_bounds(2)[OF False] by (simp add: e_def)
    moreover have "\<bar>x\<bar> < 2 powr of_int (int 1023)" using assms by (simp only: pow2_nat)
    ultimately have "(2::real) powr of_int e < 2 powr of_int (int 1023)" by linarith
    then have "e < int 1023" by (rule pow2_less_D)
    then show ?thesis by simp
  next
    case False
    then show ?thesis by simp
  qed
  then have "(2::real) powr of_int (e + 1) \<le> 2 powr of_int (int 1023)"
    by (intro pow2_mono) simp
  then have "(2::real) powr of_int (e + 1) \<le> 2 ^ 1023" by (simp only: pow2_nat)
  then have small: "\<bar>of_int m * u\<bar> \<le> 2 ^ 1023" using y by linarith
  moreover have "(2 ^ 1023 :: real) < 2 ^ 1024" by simp
  ultimately have "\<bar>of_int m * u\<bar> < 2 ^ 1024" by linarith
  then have "rnd x = Fin (of_int m * u)"
    using False by (intro rnd_eqI[where k = e]) (simp_all add: e_def u_def m_def)
  then show ?thesis using small by blast
qed

lemma b64_simps [simp]:
  "lit b64 = rnd" "fadd b64 = (\<lambda>a b. round_x (xadd a b))"
  "fsub b64 = (\<lambda>a b. round_x (xsub a b))" "fmul b64 = (\<lambda>a b. round_x (xmul a b))"
  "fdiv b64 = (\<lambda>a b. round_x (xdiv a b))" "fpow b64 = (\<lambda>a b. round_x (xpow a b))"
  "fneg b64 = xneg" "fcos b64 = (\<lambda>a. round_x (xcos a))" "fsin b64 = (\<lambda>a. round_x (xsin a))"
  "fradians b64 = (\<lambda>a. round_x (xmul a (round_x (xdiv (rnd pi) (rnd 180)))))"
  by (simp_all add: b64_def)

lemma pow2_neg: "(2::real) powr of_int (- int n) = 1 / 2 ^ n"
  by (simp add: powr_minus_divide powr_realpow)

lemma representable_small_int:
  assumes "\<bar>m\<bar> < 2 ^ 53"
  shows "representable (of_int m)"
  using assms by (intro representableI[where m = m and k = 0]) simp_all

lemma rnd_1 [simp]: "rnd 1 = Fin 1"
  using representable_small_int[of 1] by (simp add: representable_def)

lemma rnd_2 [simp]: "rnd 2 = Fin 2"
  using representable_small_int[of 2] by (simp add: representable_def)

lemma rnd_3 [simp]: "rnd 3 = Fin 3"
  using representable_small_int[of 3] by (simp add: representable_def)

lemma rnd_180 [simp]: "rnd 180 = Fin 180"
  using representable_small_int[of 180] by (simp add: representable_def)

lemma rnd_three_halves [simp]: "rnd (3 / 2) = Fin (3 / 2)"
proof -
  have "representable (3 / 2)"
    using pow2_neg[of 1] by (intro representableI[where m = 3 and k = "- 1"]) simp_all
  then show ?thesis by (simp add: representable_def)
qed

lemma rnd_evalI:
  assumes "u = 2 powr of_int (k - 52)" "2 ^ 52 * u \<le> \<bar>x\<bar>" "\<bar>x\<bar> < 2 ^ 53 * u" "- 1022 \<le> k"
    and "rne (x / u) = m" "\<bar>of_int m * u\<bar> < 2 ^ 1024"
  shows "rnd x = Fin (of_int m * u)"
proof -
  have lo: "2 powr of_int k = 2 ^ 52 * u"
    using pow2_split[of "k - 52" 52] by (simp add: assms(1) algebra_simps)
  have up: "2 powr of_int (k + 1) = 2 ^ 53 * u"
    using pow2_split[of "k - 52" 53] by (simp add: assms(1) algebra_simps)
  have b: "binade x = k"
    using assms(2,3,4) by (intro binade_eqI) (simp_all only: lo up)
  have "0 < u" by (simp add: assms(1))
  then have x0: "x \<noteq> 0" using assms(2) by auto
  have eq: "of_int (rne (x / 2 powr of_int (k - 52))) * 2 powr of_int (k - 52) = of_int m * u"
    using assms(5) by (simp only: assms(1)[symmetric])
  show ?thesis
    by (rule rnd_eqI[OF x0 b eq assms(6)])
qed

lemma rnd_third: "rnd (1 / 3) = Fin (6004799503160661 / 2 ^ 54)"
proof -
  have "rnd (1 / 3) = Fin (of_int 6004799503160661 * (1 / 2 ^ 54))"
  proof (rule rnd_evalI[where k = "- 2"])
    show "1 / 2 ^ 54 = (2::real) powr of_int (- 2 - 52)"
      by (simp add: powr_neg_numeral)
    show "rne (1 / 3 / (1 / 2 ^ 54)) = 6004799503160661"
      by (simp add: rne_def Let_def)
  qed simp_all
  then show ?thesis by simp
qed

lemma round_x_representable: "representable x \<Longrightarrow> round_x (Fin x) = Fin x"
  by (simp add: representable_def)

lemma radians_constant_finite: "\<exists>c. round_x (xdiv (rnd pi) (rnd 180)) = Fin c"
proof -
  have "\<bar>pi\<bar> < 4" using pi_less_4 pi_gt_zero by simp
  then have "\<bar>pi\<bar> < 2 ^ 1023" by (rule less_le_trans) simp
  then obtain p where p: "rnd pi = Fin p" "\<bar>p\<bar> \<le> 2 ^ 1023"
    using rnd_finite by blast
  have "\<bar>p / 180\<bar> \<le> \<bar>p\<bar> / 2" by (simp add: abs_divide) 
  then have "\<bar>p / 180\<bar> < 2 ^ 1023" using p(2) 
    by (smt (verit) abs_ge_zero field_sum_of_halves zero_less_power)
  then obtain c where "rnd (p / 180) = Fin c" using rnd_finite by blast
  then show ?thesis using p(1) by simp
qed

lemma b64_radians_0 [simp]:
  "round_x (xmul (Fin 0) (round_x (xdiv (rnd pi) (Fin 180)))) = Fin 0"
proof -
  obtain c where "round_x (xdiv (rnd pi) (rnd 180)) = Fin c"
    using radians_constant_finite by blast
  then show ?thesis by simp
qed

text \<open>About a finite center, when neither difference overflows.\<close>

lemma b64_rotate_zero:
  assumes "representable zc"
    and dx: "fsub b64 (Fin x) (Fin xc) = Fin dx" and dz: "fsub b64 (Fin z) (Fin zc) = Fin dz"
  shows "rotate_point b64 (Fin x, Fin z) (Some (Fin xc, Fin zc)) (Some (Fin 0)) mode =
           (fadd b64 (Fin xc) (Fin dx), fadd b64 (Fin zc) (Fin dz))"
proof -
  have rdx: "rnd dx = Fin dx" and rdz: "rnd dz = Fin dz"
    using dx dz rnd_representable by simp_all
  have a0: "round_x (xadd (round_x a) (Fin 0)) = round_x a" for a
    using round_x_idem[of a] by (cases "round_x a") simp_all
  have "rnd (xc + dx) = round_x (Fin (xc + dx))" by simp
  have x_new: "round_x (xadd (rnd (xc + dx)) (Fin 0)) = rnd (xc + dx)"
    using a0[of "Fin (xc + dx)"] by simp
  show ?thesis
    using assms(1) dx dz rdx rdz x_new
    by (simp add: rotate_point_def Let_def representable_def split: option.splits)
qed

lemma b64_rotate_zero_origin:
  assumes "representable x" "representable z"
    and "center = None \<or> center = Some (Fin 0, Fin 0)"
    and "angle = None \<or> angle = Some (Fin 0)"
  shows "rotate_point b64 (Fin x, Fin z) center angle mode = (Fin x, Fin z)"
proof -
  have "rotate_point b64 (Fin x, Fin z) center angle mode =
      rotate_point b64 (Fin x, Fin z) (Some (Fin 0, Fin 0)) (Some (Fin 0)) mode"
    using assms(3,4) by (auto simp: rotate_point_def)
  also have "\<dots> = (fadd b64 (Fin 0) (Fin x), fadd b64 (Fin 0) (Fin z))"
    using assms(1,2) by (intro b64_rotate_zero) (simp_all add: representable_def)
  also have "\<dots> = (Fin x, Fin z)"
    using assms(1,2) by (simp add: representable_def)
  finally show ?thesis .
qed

lemma b64_radius_trim:
  assumes "z \<noteq> 0"
  shows "radius_of_curvature b64 (Fin z) (Fin z) (Fin 0) =
           fdiv b64 (Fin z) (fdiv b64 (lit b64 1) (lit b64 3))"
proof -
  have c: "rnd (6004799503160661 / 2 ^ 54) = Fin (6004799503160661 / 2 ^ 54)"
    using rnd_representable[OF rnd_third] .
  have lit15: "rnd 1.5 = Fin (3 / 2)"
    using rnd_three_halves by simp
  show ?thesis
    using assms c by (simp add: radius_of_curvature_def rnd_third lit15)
qed

subsection \<open>Some float64 values\<close>

lemma rnd_tenth: "rnd (1 / 10) = Fin (3602879701896397 / 2 ^ 55)"
proof -
  have "rnd (1 / 10) = Fin (of_int 7205759403792794 * (1 / 2 ^ 56))"
  proof (rule rnd_evalI[where k = "- 4"])
    show "1 / 2 ^ 56 = (2::real) powr of_int (- 4 - 52)"
      by (simp add: powr_neg_numeral)
    show "rne (1 / 10 / (1 / 2 ^ 56)) = 7205759403792794"
      by (simp add: rne_def Let_def)
  qed simp_all
  then show ?thesis by simp
qed

lemma rnd_tenth_minus_1:
  "rnd (3602879701896397 / 2 ^ 55 - 1) = Fin (- (8106479329266893 / 2 ^ 53))"
proof -
  have "rnd (3602879701896397 / 2 ^ 55 - 1) = Fin (of_int (- 8106479329266893) * (1 / 2 ^ 53))"
  proof (rule rnd_evalI[where k = "- 1"])
    show "1 / 2 ^ 53 = (2::real) powr of_int (- 1 - 52)"
      by (simp add: powr_neg_numeral)
    show "rne ((3602879701896397 / 2 ^ 55 - 1) / (1 / 2 ^ 53)) = - 8106479329266893"
      by (simp add: rne_def Let_def)
  qed simp_all
  then show ?thesis by simp
qed

lemma rnd_tenth_back:
  "rnd (1 + - (8106479329266893 / 2 ^ 53)) = Fin (900719925474099 / 2 ^ 53)"
proof -
  have "representable (of_int 900719925474099 * 2 powr of_int (- 53))"
    by (rule representableI[OF refl]) simp_all
  then show ?thesis
    by (simp add: representable_def powr_neg_numeral)
qed


lemma rnd_seven_tenths: "rnd (7 / 10) = Fin (3152519739159347 / 2 ^ 52)"
proof -
  have "rnd (7 / 10) = Fin (of_int 6305039478318694 * (1 / 2 ^ 53))"
  proof (rule rnd_evalI[where k = "- 1"])
    show "1 / 2 ^ 53 = (2::real) powr of_int (- 1 - 52)"
      by (simp add: powr_neg_numeral)
    show "rne (7 / 10 / (1 / 2 ^ 53)) = 6305039478318694"
      by (simp add: rne_def Let_def)
  qed simp_all
  then show ?thesis by simp
qed

lemma rnd_seven_tenths_by_third:
  "rnd (3152519739159347 / 2 ^ 52 / (6004799503160661 / 2 ^ 54)) = Fin (4728779608739021 / 2 ^ 51)"
proof -
  have "rnd (3152519739159347 / 2 ^ 52 / (6004799503160661 / 2 ^ 54)) =
      Fin (of_int 4728779608739021 * (1 / 2 ^ 51))"
  proof (rule rnd_evalI[where k = 1])
    show "1 / 2 ^ 51 = (2::real) powr of_int (1 - 52)"
      by (simp add: powr_neg_numeral)
    show "rne (3152519739159347 / 2 ^ 52 / (6004799503160661 / 2 ^ 54) / (1 / 2 ^ 51)) =
        4728779608739021"
      by (simp add: rne_def Let_def)
  qed simp_all
  then show ?thesis by simp
qed

lemma rnd_three_seven_tenths:
  "rnd (3 * (3152519739159347 / 2 ^ 52)) = Fin (4728779608739020 / 2 ^ 51)"
proof -
  have "rnd (3 * (3152519739159347 / 2 ^ 52)) = Fin (of_int 4728779608739020 * (1 / 2 ^ 51))"
  proof (rule rnd_evalI[where k = 1])
    show "1 / 2 ^ 51 = (2::real) powr of_int (1 - 52)"
      by (simp add: powr_neg_numeral)
    show "rne (3 * (3152519739159347 / 2 ^ 52) / (1 / 2 ^ 51)) = 4728779608739020"
      by (simp add: rne_def Let_def)
  qed simp_all
  then show ?thesis by simp
qed

subsection \<open>Rounding error, symmetry and overflow\<close>

text \<open>
  Rounding to the nearest integer moves a number by at most one half, and commutes with
  the sign. So does \<open>rnd\<close>: it moves \<open>x\<close> by at most half a unit in the last place
  of the binade of \<open>x\<close>.
\<close>

lemma rne_nearest:
  assumes "\<bar>t - of_int n\<bar> < 1 / 2"
  shows "rne t = n"
proof (cases "of_int n \<le> t")
  case True
  then have "\<lfloor>t\<rfloor> = n" using assms by (intro floor_unique) (simp_all add: abs_if split: if_splits)
  then show ?thesis using assms True by (simp add: rne_def Let_def)
next
  case False
  then have f: "\<lfloor>t\<rfloor> = n - 1" using assms by (intro floor_unique) (simp_all add: abs_if split: if_splits)
  have "1 / 2 < t - of_int (n - 1)" using assms False by (simp add: abs_if split: if_splits)
  then show ?thesis using f by (simp add: rne_def Let_def)
qed

lemma rne_error: "\<bar>of_int (rne t) - t\<bar> \<le> 1 / 2"
proof -
  define f where "f = \<lfloor>t\<rfloor>"
  have "of_int f \<le> t" "t < of_int f + 1" unfolding f_def by linarith+
  then show ?thesis
    unfolding rne_def Let_def f_def[symmetric] by (simp add: abs_if)
qed

lemma rne_minus: "rne (- t) = - rne t"
proof (cases "t = of_int \<lfloor>t\<rfloor>")
  case True
  then obtain n where "t = of_int n" ..
  then show ?thesis by (simp del: of_int_minus add: of_int_minus[symmetric])
next
  case False
  then have c: "\<lceil>t\<rceil> = \<lfloor>t\<rfloor> + 1"
    by (metis ceiling_altdef)
  have f: "\<lfloor>- t\<rfloor> = - \<lfloor>t\<rfloor> - 1" using c by (simp add: floor_minus)
  have lt: "of_int \<lfloor>t\<rfloor> < t" using False by (metis of_int_floor_le order_less_le)
  show ?thesis
    using lt by (auto simp: rne_def Let_def f)
qed

lemma binade_minus [simp]: "binade (- x) = binade x"
  by (simp add: binade_def)

lemma rnd_minus: "rnd (- x) = xneg (rnd x)"
  by (simp add: rnd_def Let_def rne_minus)

lemma rnd_error:
  assumes "rnd x = Fin y"
  shows "\<bar>y - x\<bar> \<le> 2 powr of_int (binade x - 53)"
proof (cases "x = 0")
  case True
  then show ?thesis using assms by simp
next
  case False
  define u :: real where "u = 2 powr of_int (binade x - 52)"
  have u: "0 < u" by (simp add: u_def)
  have y: "y = of_int (rne (x / u)) * u"
    using assms False by (auto simp: rnd_def Let_def u_def split: if_splits)
  have "\<bar>of_int (rne (x / u)) - x / u\<bar> * u \<le> 1 / 2 * u"
    using rne_error[of "x / u"] u by (intro mult_right_mono) simp_all
  moreover have "\<bar>of_int (rne (x / u)) - x / u\<bar> * u = \<bar>y - x\<bar>"
  proof -
    have "\<bar>of_int (rne (x / u)) - x / u\<bar> * u = \<bar>(of_int (rne (x / u)) - x / u) * u\<bar>"
      using u by (simp add: abs_mult)
    also have "(of_int (rne (x / u)) - x / u) * u = y - x"
      using u by (simp add: y algebra_simps)
    finally show ?thesis .
  qed
  moreover have "2 powr of_int (binade x - 53) = 1 / 2 * u"
    using pow2_split[of "binade x - 53" 1] by (simp add: u_def algebra_simps)
  ultimately show ?thesis by simp
qed

lemma representableD:
  assumes "representable c"
  shows "\<exists>m. c = of_int m * 2 powr of_int (binade c - 52) \<and> \<bar>m\<bar> < 2 ^ 53"
proof (cases "c = 0")
  case True
  then show ?thesis by (intro exI[of _ 0]) simp
next
  case False
  define u :: real where "u = 2 powr of_int (binade c - 52)"
  define m where "m = rne (c / u)"
  have u: "0 < u" by (simp add: u_def)
  have c: "c = of_int m * u"
    using assms False by (auto simp: representable_def rnd_def Let_def u_def m_def split: if_splits)
  have up: "2 powr of_int (binade c + 1) = 2 ^ 53 * u"
    using pow2_split[of "binade c - 52" 53] by (simp add: u_def algebra_simps)
  have "\<bar>c\<bar> < 2 ^ 53 * u" using binade_bounds(1)[OF False] up by simp
  moreover have "\<bar>c\<bar> = of_int \<bar>m\<bar> * u" using u by (subst c) (simp add: abs_mult)
  ultimately have "of_int \<bar>m\<bar> < (2 ^ 53 :: real)" using u by simp
  then have "\<bar>m\<bar> < 2 ^ 53"
    using of_int_less_iff[of "\<bar>m\<bar>" "2 ^ 53", where ?'a = real] by simp
  then show ?thesis using c by (auto simp: u_def)
qed

lemma binade_le:
  assumes "x \<noteq> 0" "\<bar>x\<bar> \<le> 2 powr of_int k" "- 1022 \<le> k"
  shows "binade x \<le> k"
proof (cases "- 1022 < binade x")
  case True
  then have "2 powr of_int (binade x) \<le> \<bar>x\<bar>" using binade_bounds(2)[OF assms(1)] by simp
  then have "(2::real) powr of_int (binade x) \<le> 2 powr of_int k" using assms(2) by linarith
  then show ?thesis by simp
next
  case False
  then show ?thesis using assms(3) by simp
qed

lemma binade_ge:
  assumes "2 powr of_int k \<le> \<bar>x\<bar>"
  shows "k \<le> binade x"
proof -
  have x: "x \<noteq> 0" using assms by (smt (verit) powr_gt_zero)
  have "(2::real) powr of_int k < 2 powr of_int (binade x + 1)"
    using binade_bounds(1)[OF x] assms by linarith
  then have "k < binade x + 1" by (rule pow2_less_D)
  then show ?thesis by simp
qed

lemma rnd_bounded:
  assumes "\<bar>x\<bar> \<le> 2 powr of_int k" "- 1022 \<le> k" "k \<le> 1023"
  shows "\<exists>c. rnd x = Fin c \<and> \<bar>c\<bar> \<le> 2 powr of_int k \<and> representable c"
proof (cases "x = 0")
  case True
  then show ?thesis by (simp add: representable_def)
next
  case False
  define e where "e = binade x"
  define u :: real where "u = 2 powr of_int (e - 52)"
  define m where "m = rne (x / u)"
  define n where "n = nat (k - (e - 52))"
  have u: "0 < u" by (simp add: u_def)
  have e: "e \<le> k" using binade_le[OF False assms(1,2)] by (simp add: e_def)
  then have k: "k = (e - 52) + int n" by (simp add: n_def)
  have ksplit: "(2::real) powr of_int k = u * 2 ^ n"
    unfolding u_def by (subst k) (rule pow2_split)
  have "\<bar>x\<bar> \<le> 2 ^ n * u" using assms(1) ksplit by (simp add: mult.commute)
  then have "x \<le> 2 ^ n * u" "- (2 ^ n * u) \<le> x" by linarith+
  then have b: "x / u \<le> of_int (2 ^ n)" "of_int (- (2 ^ n)) \<le> x / u"
    using u by (simp_all add: field_simps)
  have "m \<le> 2 ^ n" unfolding m_def using b(1) by (rule rne_le)
  moreover have "- (2 ^ n) \<le> m" unfolding m_def using b(2) by (rule rne_ge)
  ultimately have "\<bar>m\<bar> \<le> 2 ^ n" by simp
  then have "of_int \<bar>m\<bar> \<le> (2 ^ n :: real)"
    using of_int_le_iff[of "\<bar>m\<bar>" "2 ^ n", where ?'a = real] by simp
  then have "of_int \<bar>m\<bar> * u \<le> 2 ^ n * u" using u by simp
  then have small: "\<bar>of_int m * u\<bar> \<le> 2 powr of_int k"
    using u ksplit by (simp add: abs_mult mult.commute)
  have "(2::real) powr of_int k \<le> 2 powr of_int (int 1023)"
    using assms(3) by (intro pow2_mono) simp
  then have "(2::real) powr of_int k \<le> 2 ^ 1023" by (simp only: pow2_nat)
  moreover have "(2 ^ 1023 :: real) < 2 ^ 1024" by simp
  ultimately have "\<bar>of_int m * u\<bar> < 2 ^ 1024" using small by linarith
  then have r: "rnd x = Fin (of_int m * u)"
    using False by (intro rnd_eqI[where k = e]) (simp_all add: e_def u_def m_def)
  then show ?thesis using small representable_rnd[OF r] by blast
qed

lemma rnd_overflow:
  assumes "2 ^ 1024 \<le> \<bar>x\<bar>"
  shows "rnd x = (if 0 < x then PInf else NInf)"
proof -
  define e where "e = binade x"
  define u :: real where "u = 2 powr of_int (e - 52)"
  define m where "m = rne (x / u)"
  have u: "0 < u" by (simp add: u_def)
  have x0: "x \<noteq> 0" using assms by auto
  have "2 powr of_int (int 1024) \<le> \<bar>x\<bar>" using assms by (simp only: pow2_nat)
  then have e: "1024 \<le> e" using binade_ge[of "int 1024" x] by (simp add: e_def)
  then have lo: "2 powr of_int e \<le> \<bar>x\<bar>" using binade_bounds(2)[OF x0] by (simp add: e_def)
  have lo2: "2 powr of_int e = 2 ^ 52 * u"
    using pow2_split[of "e - 52" 52] by (simp add: u_def algebra_simps)
  have "2 ^ 52 \<le> \<bar>m\<bar>"
  proof (cases "0 < x")
    case True
    then have "of_int (2 ^ 52) \<le> x / u" using lo lo2 u by (simp add: field_simps)
    then have "2 ^ 52 \<le> m" unfolding m_def by (rule rne_ge)
    then show ?thesis by simp
  next
    case False
    then have "x / u \<le> of_int (- (2 ^ 52))" using lo lo2 u x0 by (simp add: field_simps)
    then have "m \<le> - (2 ^ 52)" unfolding m_def by (rule rne_le)
    then show ?thesis by simp
  qed
  then have "(2 ^ 52 :: real) \<le> of_int \<bar>m\<bar>"
    using of_int_le_iff[of "2 ^ 52" "\<bar>m\<bar>", where ?'a = real] by simp
  then have "2 ^ 52 * u \<le> of_int \<bar>m\<bar> * u" using u by simp
  then have "2 powr of_int e \<le> \<bar>of_int m * u\<bar>" using u lo2 by (simp add: abs_mult)
  moreover have "(2::real) powr of_int (int 1024) \<le> 2 powr of_int e"
    using e by (intro pow2_mono) simp
  then have "(2 ^ 1024 :: real) \<le> 2 powr of_int e" by (simp only: pow2_nat)
  ultimately have "2 ^ 1024 \<le> \<bar>of_int m * u\<bar>" by linarith
  then show ?thesis
    using x0 unfolding rnd_def Let_def e_def[symmetric] u_def[symmetric] m_def[symmetric]
    by (simp only: if_False if_True)
qed

text \<open>
  Near a power of two: a number closer to \<open>2^k\<close> than half the unit in the last
  place below it, which is \<open>2^(k-54)\<close>, rounds to \<open>2^k\<close>.
\<close>

lemma rnd_near_pow2:
  assumes "- 1021 \<le> k" "k \<le> 1023" "\<bar>x - 2 powr of_int k\<bar> < 2 powr of_int (k - 54)"
  shows "rnd x = Fin (2 powr of_int k)"
proof -
  define w :: real where "w = 2 powr of_int (k - 54)"
  have w: "0 < w" by (simp add: w_def)
  have p: "2 powr of_int k = 2 ^ 54 * w"
    using pow2_split[of "k - 54" 54] by (simp add: w_def algebra_simps)
  have fin: "\<bar>2 powr of_int k\<bar> < (2 ^ 1024 :: real)"
  proof -
    have "(2::real) powr of_int k \<le> 2 powr of_int (int 1023)"
      using assms(2) by (intro pow2_mono) simp
    then have "(2::real) powr of_int k \<le> 2 ^ 1023" by (simp only: pow2_nat)
    moreover have "(2 ^ 1023 :: real) < 2 ^ 1024" by simp
    ultimately show ?thesis by simp
  qed
  have xb: "2 ^ 54 * w - w < x" "x < 2 ^ 54 * w + w"
    using assms(3) unfolding p w_def[symmetric] by (simp_all add: abs_if split: if_splits)
  show ?thesis
  proof (cases "2 ^ 54 * w \<le> x")
    case True
    define u :: real where "u = 2 powr of_int (k - 52)"
    have uw: "u = 4 * w"
      using pow2_split[of "k - 54" 2] by (simp add: u_def w_def algebra_simps)
    have "rnd x = Fin (of_int (2 ^ 52) * u)"
    proof (rule rnd_evalI[where k = k])
      show "u = 2 powr of_int (k - 52)" by (simp add: u_def)
      show "2 ^ 52 * u \<le> \<bar>x\<bar>" using True w by (simp add: uw)
      show "\<bar>x\<bar> < 2 ^ 53 * u" using True xb w by (simp add: uw)
      show "- 1022 \<le> k" using assms(1) by simp
      have "\<bar>x / u - of_int (2 ^ 52)\<bar> < 1 / 2"
        using True xb w by (simp add: uw field_simps abs_if)
      then show "rne (x / u) = 2 ^ 52" by (rule rne_nearest)
      show "\<bar>of_int (2 ^ 52) * u\<bar> < 2 ^ 1024" using fin by (simp add: p uw)
    qed
    then show ?thesis by (simp add: p uw)
  next
    case False
    define u :: real where "u = 2 powr of_int (k - 1 - 52)"
    have uw: "u = 2 * w"
      using pow2_split[of "k - 54" 1] by (simp add: u_def w_def algebra_simps)
    have "rnd x = Fin (of_int (2 ^ 53) * u)"
    proof (rule rnd_evalI[where k = "k - 1"])
      show "u = 2 powr of_int (k - 1 - 52)" by (simp add: u_def)
      show "2 ^ 52 * u \<le> \<bar>x\<bar>" using xb w by (simp add: uw)
      show "\<bar>x\<bar> < 2 ^ 53 * u" using False xb w by (simp add: uw)
      show "- 1022 \<le> k - 1" using assms(1) by simp
      have "\<bar>x / u - of_int (2 ^ 53)\<bar> < 1 / 2"
        using False xb w by (simp add: uw field_simps abs_if)
      then show "rne (x / u) = 2 ^ 53" by (rule rne_nearest)
      show "\<bar>of_int (2 ^ 53) * u\<bar> < 2 ^ 1024" using fin by (simp add: p uw)
    qed
    then show ?thesis by (simp add: p uw)
  qed
qed

lemma rnd_near_1:
  assumes "\<bar>x - 1\<bar> < 1 / 2 ^ 54"
  shows "rnd x = Fin 1"
  using rnd_near_pow2[of 0 x] assms by (simp add: powr_neg_numeral)

lemma representable_minus [simp]: "representable (- c) = representable c"
  by (cases "rnd c") (auto simp: representable_def rnd_minus)

lemma representable_scale:
  assumes "representable c" "\<bar>c\<bar> \<le> 1" "0 \<le> j" "j \<le> 100"
  shows "representable (c * 2 powr of_int j)"
proof (cases "c = 0")
  case True
  then show ?thesis by (simp add: representable_def)
next
  case False
  obtain m where m: "c = of_int m * 2 powr of_int (binade c - 52)" "\<bar>m\<bar> < 2 ^ 53"
    using representableD[OF assms(1)] by blast
  have "\<bar>c\<bar> \<le> 2 powr of_int 0" using assms(2) by simp
  then have b: "binade c \<le> 0" using binade_le[OF False, of 0] by simp
  have lo: "- 1022 \<le> binade c" using binade_bounds(3)[OF False] .
  have eq: "c * 2 powr of_int j = of_int m * 2 powr of_int (binade c - 52 + j)"
    by (subst m(1)) (simp add: powr_add)
  show ?thesis
    using b lo assms(3,4) by (intro representableI[OF eq m(2)]) simp_all
qed

subsection \<open>Cosine and sine near their exact values\<close>

lemma cos_near_1: "\<bar>cos d - 1\<bar> \<le> d\<^sup>2 / 2" for d :: real
proof -
  have c: "cos d = 1 - 2 * (sin (d / 2))\<^sup>2"
    using cos_double_sin[of "d / 2"] by simp
  have "\<bar>sin (d / 2)\<bar> \<le> \<bar>d / 2\<bar>" by (rule abs_sin_x_le_abs_x)
  then have "(sin (d / 2))\<^sup>2 \<le> (d / 2)\<^sup>2" by (rule abs_le_square_iff[THEN iffD1])
  then show ?thesis unfolding c by (simp add: power2_eq_square field_simps)
qed

lemma sin_near_x: "\<bar>sin x - x\<bar> \<le> \<bar>x\<bar> ^ 3 / 6" for x :: real
proof -
  have "(\<Sum>m<3. sin_coeff m * x ^ m) = x"
    by (simp add: sin_coeff_def numeral_3_eq_3 lessThan_Suc)
  then show ?thesis
    using Maclaurin_sin_bound[of x 3] by (simp add: fact_numeral)
qed

lemma rnd_pi:
  "\<exists>P. rnd pi = Fin P \<and> \<bar>P - pi\<bar> \<le> 1 / 2 ^ 52 \<and> representable (P / 2)"
proof -
  have "\<bar>pi\<bar> \<le> 2 powr of_int 2" using pi_less_4 pi_gt_zero by simp
  then obtain P where P: "rnd pi = Fin P" "representable P" "\<bar>P\<bar> \<le> 2 powr of_int 2"
    using rnd_bounded[of pi 2] by auto
  have "binade pi = 1"
    using pi_ge_two pi_less_4 by (intro binade_eqI) simp_all
  then have err: "\<bar>P - pi\<bar> \<le> 1 / 2 ^ 52"
    using rnd_error[OF P(1)] by (simp add: powr_neg_numeral)
  have "(1 / 2 ^ 52 :: real) \<le> 1" by simp
  then have "1 \<le> P" using err pi_ge_two by (simp add: abs_if split: if_splits)
  then have P1: "2 powr of_int 0 \<le> \<bar>P\<bar>" and P0: "P \<noteq> 0" by simp_all
  have lo: "0 \<le> binade P" using binade_ge[OF P1] .
  have hi: "binade P \<le> 2" using binade_le[OF P0 P(3)] by simp
  obtain m where m: "P = of_int m * 2 powr of_int (binade P - 52)" "\<bar>m\<bar> < 2 ^ 53"
    using representableD[OF P(2)] by blast
  have "(2::real) powr of_int (binade P - 52) = 2 powr of_int (binade P - 53) * 2"
    using pow2_split[of "binade P - 53" 1] by (simp add: algebra_simps)
  then have eq: "P / 2 = of_int m * 2 powr of_int (binade P - 53)"
    by (subst m(1)) simp
  have "representable (P / 2)"
    using lo hi by (intro representableI[OF eq m(2)]) simp_all
  then show ?thesis using P(1) err by blast
qed

lemma cos_pi_half_near:
  assumes "\<bar>P - pi\<bar> \<le> 1 / 2 ^ 52"
  shows "\<bar>cos (P / 2)\<bar> \<le> 1 / 2 ^ 53" and "\<bar>sin (P / 2) - 1\<bar> < 1 / 2 ^ 54"
proof -
  define d where "d = pi / 2 - P / 2"
  have d: "\<bar>d\<bar> \<le> 1 / 2 ^ 53" using assms by (simp add: d_def abs_if split: if_splits)
  have c: "cos (P / 2) = sin d" and s: "sin (P / 2) = cos d"
    by (simp_all add: d_def sin_diff cos_diff)
  show "\<bar>cos (P / 2)\<bar> \<le> 1 / 2 ^ 53"
    unfolding c using abs_sin_x_le_abs_x[of d] d by linarith
  have "d\<^sup>2 \<le> (1 / 2 ^ 53)\<^sup>2"
    using d by (intro abs_le_square_iff[THEN iffD1]) simp
  then have "d\<^sup>2 / 2 < 1 / 2 ^ 54" by (simp add: power2_eq_square)
  then show "\<bar>sin (P / 2) - 1\<bar> < 1 / 2 ^ 54"
    unfolding s using cos_near_1[of d] by linarith
qed

lemma rnd_cos_tiny: "rnd (cos (1 / 2 ^ 54)) = Fin 1"
proof -
  have "((1 / 2 ^ 54)\<^sup>2 :: real) / 2 < 1 / 2 ^ 54" by (simp add: power2_eq_square)
  then have "\<bar>cos (1 / 2 ^ 54) - 1\<bar> < (1 / 2 ^ 54 :: real)"
    using cos_near_1[of "1 / 2 ^ 54"] by linarith
  then show ?thesis by (rule rnd_near_1)
qed

lemma rnd_sin_tiny: "rnd (sin (1 / 2 ^ 54)) = Fin (1 / 2 ^ 54)"
proof -
  have "((2::real) ^ 54) ^ 3 = 2 ^ 162" by (simp only: power_mult[symmetric]) simp
  have "\<bar>1 / 2 ^ 54 :: real\<bar> = 1 / 2 ^ 54" by simp
  then have "(\<bar>1 / 2 ^ 54\<bar> ^ 3 :: real) = 1 / 2 ^ 162"
    using \<open>((2::real) ^ 54) ^ 3 = 2 ^ 162\<close> by (simp only: power_divide power_one)
  moreover have "(1 / 2 ^ 162 :: real) / 6 < 1 / 2 ^ 108" by simp
  ultimately have "(\<bar>1 / 2 ^ 54\<bar> ^ 3 :: real) / 6 < 1 / 2 ^ 108" by (simp only:)
  then have "\<bar>sin (1 / 2 ^ 54) - 1 / 2 ^ 54\<bar> < (1 / 2 ^ 108 :: real)"
    using sin_near_x[of "1 / 2 ^ 54"] by linarith
  then have "\<bar>sin (1 / 2 ^ 54) - 2 powr of_int (- 54)\<bar> < (2::real) powr of_int (- 54 - 54)"
    by (simp add: powr_neg_numeral)
  then have "rnd (sin (1 / 2 ^ 54)) = Fin (2 powr of_int (- 54))"
    by (intro rnd_near_pow2) simp_all
  then show ?thesis by (simp add: powr_neg_numeral)
qed

text \<open>On arrays \<open>rotate\<close> at the angle \<open>0\<close> works on each coordinate alone.\<close>

lemma rotate_map_pointwise:
  assumes "length xs = length zs"
    and "\<And>a b. a \<in> set xs \<Longrightarrow> b \<in> set zs \<Longrightarrow> rot (Fin a, Fin b) = (f a, g b)"
  shows "map (\<lambda>p. fst (rot p)) (zip (map Fin xs) (map Fin zs)) = map f xs \<and>
         map (\<lambda>p. snd (rot p)) (zip (map Fin xs) (map Fin zs)) = map g zs"
  using assms by (induction xs zs rule: list_induct2) auto

lemma b64_rotate_zero_finite:
  assumes "representable zc"
    and "is_fin (fsub b64 (Fin x) (Fin xc))" and "is_fin (fsub b64 (Fin z) (Fin zc))"
  shows "rotate_point b64 (Fin x, Fin z) (Some (Fin xc, Fin zc)) (Some (Fin 0)) mode =
           (fadd b64 (Fin xc) (fsub b64 (Fin x) (Fin xc)),
            fadd b64 (Fin zc) (fsub b64 (Fin z) (Fin zc)))"
proof -
  obtain dx where dx: "fsub b64 (Fin x) (Fin xc) = Fin dx"
    using assms(2) by (cases "fsub b64 (Fin x) (Fin xc)") simp_all
  obtain dz where dz: "fsub b64 (Fin z) (Fin zc) = Fin dz"
    using assms(3) by (cases "fsub b64 (Fin z) (Fin zc)") simp_all
  show ?thesis
    unfolding dx dz using assms(1) dx dz by (rule b64_rotate_zero)
qed

text \<open>The radius at the largest power of two: the quotient overflows.\<close>

lemma b64_radius_overflow:
  "radius_of_curvature b64 (Fin (2 ^ 1023)) (Fin (2 ^ 1023)) (Fin 0) = PInf"
proof -
  define X :: real where "X = 2 ^ 1023"
  have X: "0 < X" by (simp add: X_def)
  have "2 ^ 1024 = 2 * X" by (simp add: X_def)
  moreover have "2 * X \<le> X / (6004799503160661 / 2 ^ 54)" using X by (simp add: field_simps)
  ultimately have "2 ^ 1024 \<le> \<bar>X / (6004799503160661 / 2 ^ 54)\<bar>" using X by simp
  then have "rnd (X / (6004799503160661 / 2 ^ 54)) = PInf"
    using rnd_overflow[of "X / (6004799503160661 / 2 ^ 54)"] X by simp
  moreover have "radius_of_curvature b64 (Fin X) (Fin X) (Fin 0) =
      rnd (X / (6004799503160661 / 2 ^ 54))"
    using X b64_radius_trim[of X] by (simp add: rnd_third)
  ultimately show ?thesis by (simp only: X_def)
qed

subsection \<open>The trim flight in float64\<close>

text \<open>
  \<open>zt = 1.0\<close>, \<open>z0 = 1.0\<close>, \<open>theta0 = 0.0\<close>: the constant \<open>C\<close> is the
  float64 number above \<open>2/3\<close>, the denominator of the radius is \<open>-2^-54\<close> and the
  radius \<open>-2^54\<close>. The first pass of the loop takes the cosine and the sine of the
  float64 number nearest to \<open>pi / 2\<close>, which round to a number \<open>c\<close> of magnitude
  at most \<open>2^-53\<close> and to \<open>1\<close>, and of the angle \<open>-2^-54\<close>, which round to
  \<open>1\<close> and to \<open>-2^-54\<close>. These four values and \<open>cos(0) = 1\<close> are all the proof
  uses of the two functions.
\<close>

lemma rnd_half [simp]: "rnd (1 / 2) = Fin (1 / 2)"
proof -
  have "representable (1 / 2)"
    using pow2_neg[of 1] by (intro representableI[where m = 1 and k = "- 1"]) simp_all
  then show ?thesis by (simp add: representable_def)
qed

lemma rnd_one_minus_third:
  "rnd (1 - 6004799503160661 / 2 ^ 54) = Fin (6004799503160662 / 2 ^ 53)"
proof -
  have "rnd (1 - 6004799503160661 / 2 ^ 54) = Fin (of_int 6004799503160662 * (1 / 2 ^ 53))"
  proof (rule rnd_evalI[where k = "- 1"])
    show "1 / 2 ^ 53 = (2::real) powr of_int (- 1 - 52)"
      by (simp add: powr_neg_numeral)
    show "rne ((1 - 6004799503160661 / 2 ^ 54) / (1 / 2 ^ 53)) = 6004799503160662"
      by (simp add: rne_def Let_def)
  qed simp_all
  then show ?thesis by simp
qed

lemma b64_trim_constant:
  "integration_constant b64 (Fin 0) (Fin 1) (Fin 1) = Fin (6004799503160662 / 2 ^ 53)"
proof -
  have t: "rnd (6004799503160661 / 2 ^ 54) = Fin (6004799503160661 / 2 ^ 54)"
    using rnd_representable[OF rnd_third] .
  have c: "rnd (6004799503160662 / 2 ^ 53) = Fin (6004799503160662 / 2 ^ 53)"
    using rnd_representable[OF rnd_one_minus_third] .
  have lit05: "rnd 0.5 = Fin (1 / 2)" using rnd_half by simp
  show ?thesis
    using t c rnd_one_minus_third
    by (simp add: integration_constant_def rnd_third lit05 xsub_def)
qed

lemma rnd_pow54 [simp]: "rnd 18014398509481984 = Fin 18014398509481984"
  using representableI[of "2 ^ 54" 1 54] pow2_nat[of 54]
  by (simp add: representable_def)

lemma b64_trim_radius:
  "radius_of_curvature b64 (Fin 1) (Fin 1) (Fin (6004799503160662 / 2 ^ 53)) = Fin (- (2 ^ 54))"
proof -
  have t: "rnd (6004799503160661 / 2 ^ 54) = Fin (6004799503160661 / 2 ^ 54)"
    using rnd_representable[OF rnd_third] .
  have lit15: "rnd 1.5 = Fin (3 / 2)"
    using rnd_three_halves by simp
  have "representable (of_int 3002399751580331 * 2 powr of_int (- 53))"
    by (rule representableI[OF refl]) simp_all
  then have h: "rnd (3002399751580331 / 2 ^ 53) = Fin (3002399751580331 / 2 ^ 53)"
    by (simp add: representable_def powr_neg_numeral)
  have "representable (of_int (- 1) * 2 powr of_int (- 54))"
    by (rule representableI[OF refl]) simp_all
  then have d: "rnd (- (1 / 2 ^ 54)) = Fin (- (1 / 2 ^ 54))"
    by (simp add: representable_def powr_neg_numeral)
  have m: "rnd (- (2 ^ 54)) = Fin (- (2 ^ 54))"
    by (simp add: rnd_minus)
  show ?thesis
    using t h d m
    by (simp add: radius_of_curvature_def rnd_third lit15 xsub_def)
qed

lemma rnd_pow54_plus_1: "rnd 18014398509481985 = Fin 18014398509481984"
proof -
  have "rnd 18014398509481985 = Fin (of_int 4503599627370496 * 4)"
  proof (rule rnd_evalI[where k = 54])
    show "4 = (2::real) powr of_int (54 - 52)" by simp
    show "rne (18014398509481985 / 4) = 4503599627370496"
      by (simp add: rne_def Let_def)
  qed simp_all
  then show ?thesis by simp
qed

lemma rnd_pow54_minus_1: "rnd 18014398509481983 = Fin 18014398509481984"
proof -
  have "rnd 18014398509481983 = Fin (of_int 9007199254740992 * 2)"
  proof (rule rnd_evalI[where k = 53])
    show "2 = (2::real) powr of_int (53 - 52)" by simp
    show "rne (18014398509481983 / 2) = 9007199254740992"
      by (simp add: rne_def Let_def)
  qed simp_all
  then show ?thesis by simp
qed

lemma rnd_pow54_near:
  assumes "\<bar>c\<bar> \<le> 1 / 2 ^ 53"
  shows "rnd (18014398509481984 + c) = Fin 18014398509481984"
proof -
  have "(1 / 2 ^ 53 :: real) < 1" by simp
  then have "\<bar>c\<bar> < 1" using assms by linarith
  then have "\<bar>(18014398509481984 + c) - 2 powr of_int 54\<bar> < 2 powr of_int (54 - 54)"
    using pow2_nat[of 54] by simp
  then have "rnd (18014398509481984 + c) = Fin (2 powr of_int 54)"
    by (intro rnd_near_pow2) simp_all
  then show ?thesis using pow2_nat[of 54] by simp
qed

lemma rotate_point_radians:
  "rotate_point A (x, z) (Some (xc, zc)) (Some a) (Some ''radians'') =
     (fadd A (fadd A xc (fmul A (fsub A x xc) (fcos A a))) (fmul A (fsub A z zc) (fsin A a)),
      fadd A (fsub A zc (fmul A (fsub A x xc) (fsin A a))) (fmul A (fsub A z zc) (fcos A a)))"
  by (simp add: rotate_point_def)

lemma b64_trim_rotate:
  assumes "representable c" "\<bar>c\<bar> \<le> 1 / 2 ^ 53"
  shows "rotate_point b64 (Fin 0, Fin 1) (Some (Fin (- (18014398509481984 * c)), Fin 18014398509481984))
           (Some (Fin (- (1 / 2 ^ 54)))) (Some ''radians'') = (Fin 1, Fin 0)"
proof -
  have "\<bar>c\<bar> \<le> 1" using assms(2) by (rule order_trans) simp
  then have "representable (c * 2 powr of_int 54)"
    using assms(1) by (intro representable_scale) simp_all
  then have a: "rnd (18014398509481984 * c) = Fin (18014398509481984 * c)"
    using pow2_nat[of 54] by (simp add: representable_def mult.commute)
  have c: "rnd c = Fin c" using assms(1) by (simp add: representable_def)
  have cs: "rnd (cos (1 / 18014398509481984)) = Fin 1" using rnd_cos_tiny by simp
  have sn: "rnd (sin (1 / 18014398509481984)) = Fin (1 / 18014398509481984)"
    using rnd_sin_tiny by simp
  have near: "rnd (18014398509481984 + c) = Fin 18014398509481984"
    using rnd_pow54_near[OF assms(2)] .
  show ?thesis
    unfolding rotate_point_radians
    using a c cs sn near rnd_pow54_minus_1
    by (simp add: xsub_def rnd_minus)
qed

lemma b64_trim_advance:
  "\<exists>th. advance b64 (Fin 1) (Fin (6004799503160662 / 2 ^ 53)) (Fin 1) (Fin 0, Fin 1, Fin 0) =
          (Fin 1, Fin 0, th)"
proof -
  obtain P where P: "rnd pi = Fin P" "\<bar>P - pi\<bar> \<le> 1 / 2 ^ 52" "representable (P / 2)"
    using rnd_pi by blast
  have h: "rnd (P / 2) = Fin (P / 2)" using P(3) by (simp add: representable_def)
  have "\<bar>cos (P / 2)\<bar> \<le> 2 powr of_int (- 53)"
    using cos_pi_half_near(1)[OF P(2)] by (simp add: powr_neg_numeral)
  then obtain c where c: "rnd (cos (P / 2)) = Fin c" "\<bar>c\<bar> \<le> 2 powr of_int (- 53)"
      "representable c"
    using rnd_bounded[of "cos (P / 2)" "- 53"] by auto
  have cb: "\<bar>c\<bar> \<le> 1 / 2 ^ 53" using c(2) by (simp add: powr_neg_numeral)
  have s: "rnd (sin (P / 2)) = Fin 1"
    using cos_pi_half_near(2)[OF P(2)] by (rule rnd_near_1)
  have "\<bar>c\<bar> \<le> 1" using cb by (rule order_trans) simp
  then have "representable (c * 2 powr of_int 54)"
    using c(3) by (intro representable_scale) simp_all
  then have a: "rnd (18014398509481984 * c) = Fin (18014398509481984 * c)"
    using pow2_nat[of 54] by (simp add: representable_def mult.commute)
  have "representable (of_int 1 * 2 powr of_int (- 54))"
    by (rule representableI[OF refl]) simp_all
  then have d: "rnd (1 / 18014398509481984) = Fin (1 / 18014398509481984)"
    by (simp add: representable_def powr_neg_numeral)
  have R: "radius_of_curvature b64 (Fin 1) (Fin 1) (Fin (3002399751580331 / 4503599627370496)) =
      Fin (- 18014398509481984)"
    using b64_trim_radius by simp
  have rot: "rotate_point b64 (Fin 0, Fin 1)
      (Some (Fin (- (18014398509481984 * c)), Fin 18014398509481984))
      (Some (Fin (- (1 / 18014398509481984)))) (Some ''radians'') = (Fin 1, Fin 0)"
    using b64_trim_rotate[OF c(3) cb] by simp
  show ?thesis
    using P(1) h c(1) s a d rnd_pow54_plus_1
    by (simp add: advance_def Let_def R rot rnd_minus)
qed

section \<open>The path tracer\<close>

text \<open>
  C1. For every positive \<open>zt\<close>, positive \<open>z0\<close>, any \<open>theta0\<close> in degrees and
  every integer \<open>N\<close> of at least two (\<open>N\<close> left out is \<open>1000\<close>), the tracer
  returns two sequences of exactly \<open>N\<close> numbers each, and the first point is
  \<open>(0, z0)\<close> exactly. The theorem holds in every arithmetic and for every \<open>zt\<close>
  and \<open>z0\<close>, the positive ones among them.
\<close>

theorem trace_returns_N_points:
  "(2 \<le> N \<longrightarrow>
      (\<exists>r. plot_flight_path A zt z0 theta0 (Some N) = Inr r \<and>
            length (fx r) = nat N \<and> length (fz r) = nat N \<and>
            fx r ! 0 = lit A 0 \<and> fz r ! 0 = z0)) \<and>
   (\<exists>r. plot_flight_path A zt z0 theta0 None = Inr r \<and>
         length (fx r) = 1000 \<and> length (fz r) = 1000 \<and>
         fx r ! 0 = lit A 0 \<and> fz r ! 0 = z0)"
proof (intro conjI impI)
  assume "2 \<le> N"
  then have "1 \<le> N" by simp
  from plot_flight_path_ok[OF this, of A zt z0 theta0]
  show "\<exists>r. plot_flight_path A zt z0 theta0 (Some N) = Inr r \<and>
            length (fx r) = nat N \<and> length (fz r) = nat N \<and>
            fx r ! 0 = lit A 0 \<and> fz r ! 0 = z0"
    by auto
next
  have same: "plot_flight_path A zt z0 theta0 None = plot_flight_path A zt z0 theta0 (Some 1000)"
    by (simp add: plot_flight_path_def)
  have "(1::int) \<le> 1000" by simp
  from plot_flight_path_ok[OF this, of A zt z0 theta0]
  show "\<exists>r. plot_flight_path A zt z0 theta0 None = Inr r \<and>
         length (fx r) = 1000 \<and> length (fz r) = 1000 \<and>
         fx r ! 0 = lit A 0 \<and> fz r ! 0 = z0"
    unfolding same by auto
qed

theorem trace_returns_N_points_witness:
  "(2::int) \<le> 2 \<and>
   (\<exists>r. plot_flight_path xarith (Fin 30) (Fin 30) (Fin 5) (Some 2) = Inr r \<and>
         length (fx r) = 2 \<and> length (fz r) = 2 \<and> fx r ! 0 = Fin 0 \<and> fz r ! 0 = Fin 30)"
  using trace_returns_N_points[of 2 xarith "Fin 30" "Fin 30" "Fin 5"] by simp

text \<open>
  C2. For every \<open>i\<close> from \<open>1\<close> to \<open>N - 1\<close>, the marching step computes the new
  point from the previous one by: \<open>normal = (cos(theta + pi/2), -sin(theta + pi/2))\<close>;
  \<open>R = radius_of_curvature(z[i-1], zt, C)\<close>; the rotation center is the previous
  point plus \<open>R * normal\<close>; \<open>dtheta = ds / R\<close> with \<open>ds = 1.0\<close>; the new point is
  \<open>rotate(previous point, center, dtheta, radians)\<close>; then \<open>theta\<close> grows by
  \<open>dtheta\<close>. Here \<open>s\<close> and \<open>s'\<close> are the loop states before and after pass
  \<open>i\<close>, and the points are those of the returned path.
\<close>

theorem marching_step:
  assumes "1 \<le> i" "i < N"
  shows "\<exists>r s s'.
      plot_flight_path A zt z0 theta0 (Some N) = Inr r \<and>
      state_after A zt z0 theta0 N (i - 1) = Inr (fC r, s) \<and>
      state_after A zt z0 theta0 N i = Inr (fC r, s') \<and>
      (let theta = stheta s;
           xp = fx r ! nat (i - 1);
           zp = fz r ! nat (i - 1);
           normal = (fcos A (fadd A theta (fdiv A (lit A pi) (lit A 2))),
                     fneg A (fsin A (fadd A theta (fdiv A (lit A pi) (lit A 2)))));
           R = radius_of_curvature A zp zt (fC r);
           center = (fadd A xp (fmul A R (fst normal)), fadd A zp (fmul A R (snd normal)));
           dtheta = fdiv A (lit A 1) R
       in (fx r ! nat i, fz r ! nat i) =
            rotate_point A (xp, zp) (Some center) (Some dtheta) (Some ''radians'') \<and>
          stheta s' = fadd A theta dtheta)"
proof -
  from path_step[OF assms, of A zt z0 theta0]
  obtain r and s s' :: "'a state" where st:
      "plot_flight_path A zt z0 theta0 (Some N) = Inr r"
      "state_after A zt z0 theta0 N (i - 1) = Inr (fC r, s)"
      "state_after A zt z0 theta0 N i = Inr (fC r, s')"
      "(fx r ! nat i, fz r ! nat i, stheta s') =
         advance A zt (fC r) (lit A 1) (fx r ! nat (i - 1), fz r ! nat (i - 1), stheta s)"
    by blast
  show ?thesis
    apply (rule exI[of _ r])
    apply (rule exI[of _ s])
    apply (rule exI[of _ s'])
    using st by (simp add: advance_def Let_def split: prod.splits)
qed

theorem marching_step_witness:
  "(1::int) \<le> 1 \<and> (1::int) < 2 \<and>
   (\<exists>r s s'.
      plot_flight_path xarith (Fin 30) (Fin 30) (Fin 5) (Some 2) = Inr r \<and>
      state_after xarith (Fin 30) (Fin 30) (Fin 5) 2 0 = Inr (fC r, s) \<and>
      state_after xarith (Fin 30) (Fin 30) (Fin 5) 2 1 = Inr (fC r, s') \<and>
      (let theta = stheta s;
           xp = fx r ! 0;
           zp = fz r ! 0;
           normal = (xcos (xadd theta (xdiv (Fin pi) (Fin 2))),
                     xneg (xsin (xadd theta (xdiv (Fin pi) (Fin 2)))));
           R = radius_of_curvature xarith zp (Fin 30) (fC r);
           center = (xadd xp (xmul R (fst normal)), xadd zp (xmul R (snd normal)));
           dtheta = xdiv (Fin 1) R
       in (fx r ! 1, fz r ! 1) =
            rotate_point xarith (xp, zp) (Some center) (Some dtheta) (Some ''radians'') \<and>
          stheta s' = xadd theta dtheta))"
  using marching_step[of 1 2 xarith "Fin 30" "Fin 30" "Fin 5"] by simp




section \<open>The integration constant\<close>

text \<open>
  In exact arithmetic the constant computed before the loop is
  \<open>(cos(theta) - (1/3)(z0/zt)) * sqrt(z0/zt)\<close> wherever \<open>z0 / zt\<close> has a
  value that is not negative.
\<close>

lemma xpow_half:
  assumes "0 \<le> r"
  shows "xpow (Fin r) (Fin (1 / 2)) = Fin (sqrt r)"
proof (cases "r = 0")
  case True
  then show ?thesis by simp
next
  case False
  then have "0 < r" using assms by simp
  then show ?thesis by (auto simp: powr_half_sqrt)
qed

lemma integration_constant_exact:
  assumes "zt \<noteq> 0" "0 \<le> z0 / zt"
  shows "integration_constant xarith (Fin theta) (Fin z0) (Fin zt) =
           Fin ((cos theta - (1 / 3) * (z0 / zt)) * sqrt (z0 / zt))"
proof -
  have "xdiv (Fin z0) (Fin zt) = Fin (z0 / zt)"
    using assms(1) by simp
  then show ?thesis
    using assms(1) xpow_half[OF assms(2)] by (simp add: integration_constant_def)
qed

text \<open>
  For \<open>zt = 1.0\<close>, \<open>z0 = 1.0\<close>, \<open>theta0 = 0.0\<close> the exact constant is
  \<open>2/3\<close>, the trim value: the denominator of the radius is \<open>1/3 - 1/3\<close>, the
  radius is infinite, and with \<open>N = 2\<close> the second point is \<open>(NaN, NaN)\<close> in
  exact arithmetic. Whether the computed denominator is zero is a matter of rounding:
  float64 decides it the other way (lemma \<open>trim_flight_b64\<close>).
\<close>

lemma trim_flight_exact:
  "\<exists>r. plot_flight_path xarith (Fin 1) (Fin 1) (Fin 0) (Some 2) = Inr r \<and>
        fC r = Fin (2 / 3) \<and> fx r ! 0 = Fin 0 \<and> fz r ! 0 = Fin 1 \<and>
        radius_of_curvature xarith (fz r ! 0) (Fin 1) (fC r) = PInf \<and>
        fx r ! 1 = NaN \<and> fz r ! 1 = NaN"
proof -
  have N: "(1::int) \<le> 2" by simp
  have i: "(1::int) \<le> 1" "(1::int) < 2" by simp_all
  let ?C = "integration_constant xarith (fradians xarith (Fin 0)) (Fin 1) (Fin 1)"
  have C: "?C = Fin (2 / 3)"
    by (simp add: integration_constant_def)
  obtain sN :: "xreal state" where sN:
      "plot_flight_path xarith (Fin 1) (Fin 1) (Fin 0) (Some 2) =
         Inr \<lparr>fx = sx sN, fz = sz sN, fC = ?C\<rparr>"
      "sx sN ! 0 = Fin 0" "sz sN ! 0 = Fin 1"
    using plot_flight_path_ok[OF N, of xarith "Fin 1" "Fin 1" "Fin 0"] by auto
  let ?r = "\<lparr>fx = sx sN, fz = sz sN, fC = ?C\<rparr>"
  from path_step[OF i, of xarith "Fin 1" "Fin 1" "Fin 0"]
  obtain r1 and s1 s2 :: "xreal state" where st:
      "plot_flight_path xarith (Fin 1) (Fin 1) (Fin 0) (Some 2) = Inr r1"
      "state_after xarith (Fin 1) (Fin 1) (Fin 0) 2 (1 - 1) = Inr (fC r1, s1)"
      "(fx r1 ! nat 1, fz r1 ! nat 1, stheta s2) =
         advance xarith (Fin 1) (fC r1) (lit xarith 1)
           (fx r1 ! nat (1 - 1), fz r1 ! nat (1 - 1), stheta s1)"
    by blast
  have eq: "r1 = ?r" using st(1) sN(1) by simp
  have "s1 = start xarith (Fin 1) (Fin 0) 2"
    using st(2) state_after_0[OF N, of xarith "Fin 1" "Fin 1" "Fin 0"] by simp
  then have th: "stheta s1 = Fin 0"
    by (simp add: start_simps)
  have R: "radius_of_curvature xarith (Fin 1) (Fin 1) (Fin (2 / 3)) = PInf"
    by (simp add: radius_of_curvature_def)
  have "\<exists>th'. advance xarith (Fin 1) (Fin (2 / 3)) (Fin 1) (Fin 0, Fin 1, Fin 0) =
      (NaN, NaN, th')"
    by (simp add: advance_def Let_def R rotate_point_NaN_difference split: prod.splits)
  then obtain th' where
      "advance xarith (Fin 1) (Fin (2 / 3)) (Fin 1) (Fin 0, Fin 1, Fin 0) = (NaN, NaN, th')"
    by (elim exE)
  then have "fx ?r ! 1 = NaN \<and> fz ?r ! 1 = NaN"
    using st(3) sN(2,3) C th unfolding eq by simp
  then show ?thesis
    using sN C R by simp
qed

text \<open>
  In float64 \<open>1 - 1/3\<close> rounds up to \<open>0.6666666666666667\<close>, so the denominator is
  \<open>-2^-54\<close> and not zero, the radius is \<open>-2^54\<close>, the center
  \<open>(-2^54 * c, 2^54)\<close> with \<open>c\<close> the rounded cosine of the float64 \<open>pi / 2\<close>,
  and the rotation by \<open>-2^-54\<close> takes \<open>(0, 1)\<close> to \<open>(1, 0)\<close>.
\<close>

lemma trim_flight_b64:
  "\<exists>r. plot_flight_path b64 (Fin 1) (Fin 1) (Fin 0) (Some 2) = Inr r \<and>
        fC r = Fin (6004799503160662 / 2 ^ 53) \<and>
        \<bar>6004799503160662 / 2 ^ 53 - 2 / 3\<bar> \<le> (1 / 2 ^ 53 :: real) \<and>
        fx r ! 0 = Fin 0 \<and> fz r ! 0 = Fin 1 \<and> fx r ! 1 = Fin 1 \<and> fz r ! 1 = Fin 0"
proof -
  have N: "(1::int) \<le> 2" by simp
  have i: "(1::int) \<le> 1" "(1::int) < 2" by simp_all
  let ?C = "integration_constant b64 (fradians b64 (Fin 0)) (Fin 1) (Fin 1)"
  have th0: "fradians b64 (Fin 0) = Fin 0" by simp
  have C: "?C = Fin (6004799503160662 / 2 ^ 53)"
    unfolding th0 by (rule b64_trim_constant)
  obtain sN :: "xreal state" where sN:
      "plot_flight_path b64 (Fin 1) (Fin 1) (Fin 0) (Some 2) =
         Inr \<lparr>fx = sx sN, fz = sz sN, fC = ?C\<rparr>"
      "sx sN ! 0 = lit b64 0" "sz sN ! 0 = Fin 1"
    using plot_flight_path_ok[OF N, of b64 "Fin 1" "Fin 1" "Fin 0"] by auto
  let ?r = "\<lparr>fx = sx sN, fz = sz sN, fC = ?C\<rparr>"
  from path_step[OF i, of b64 "Fin 1" "Fin 1" "Fin 0"]
  obtain r1 and s1 s2 :: "xreal state" where st:
      "plot_flight_path b64 (Fin 1) (Fin 1) (Fin 0) (Some 2) = Inr r1"
      "state_after b64 (Fin 1) (Fin 1) (Fin 0) 2 (1 - 1) = Inr (fC r1, s1)"
      "(fx r1 ! nat 1, fz r1 ! nat 1, stheta s2) =
         advance b64 (Fin 1) (fC r1) (lit b64 1)
           (fx r1 ! nat (1 - 1), fz r1 ! nat (1 - 1), stheta s1)"
    by blast
  have eq: "r1 = ?r" using st(1) sN(1) by simp
  have "s1 = start b64 (Fin 1) (Fin 0) 2"
    using st(2) state_after_0[OF N, of b64 "Fin 1" "Fin 1" "Fin 0"] by simp
  then have th: "stheta s1 = Fin 0"
    using th0 by (simp only: start_simps)
  obtain th' where adv:
      "advance b64 (Fin 1) (Fin (6004799503160662 / 2 ^ 53)) (Fin 1) (Fin 0, Fin 1, Fin 0) =
         (Fin 1, Fin 0, th')"
    using b64_trim_advance by blast
  have p0: "sx sN ! 0 = Fin 0" using sN(2) by simp
  have "(fx ?r ! nat 1, fz ?r ! nat 1, stheta s2) =
      advance b64 (Fin 1) (Fin (6004799503160662 / 2 ^ 53)) (Fin 1) (Fin 0, Fin 1, Fin 0)"
    using st(3) p0 sN(3) th unfolding eq C by simp
  then have "fx ?r ! 1 = Fin 1 \<and> fz ?r ! 1 = Fin 0"
    unfolding adv by simp
  moreover have "\<bar>6004799503160662 / 2 ^ 53 - 2 / 3\<bar> \<le> (1 / 2 ^ 53 :: real)" by simp
  ultimately show ?thesis
    using sN(1) p0 sN(3) C by simp
qed

text \<open>
  C4. Before the loop the tracer computes the constant
  \<open>C = (cos(theta) - (1/3)(z0/zt)) * sqrt(z0/zt)\<close> from the inputs, \<open>theta\<close> the
  initial angle in radians: in every arithmetic the constant of the returned path is the
  code's expression \<open>(cos(theta) - 1 / 3 * z0 / zt) * (z0 / zt)**0.5\<close> of the
  arithmetic's operations, the value the loop starts with, and in exact arithmetic it is
  the real number of the formula wherever \<open>z0 / zt\<close> has a value that is not negative.
  For \<open>zt = 1.0\<close>, \<open>z0 = 1.0\<close>, \<open>theta0 = 0.0\<close> the float64 constant is
  \<open>6004799503160662 / 2^53\<close>, within \<open>2^-53\<close> of \<open>2/3\<close>, and with \<open>N = 2\<close>
  point 1 is \<open>(1, 0)\<close>: finite, and distinct from point 0, which is \<open>(0, 1)\<close>.
\<close>

theorem integration_constant_formula:
  "(1 \<le> N \<longrightarrow>
      (\<exists>r. plot_flight_path A zt z0 theta0 (Some N) = Inr r \<and>
            fC r = integration_constant A (fradians A theta0) z0 zt \<and>
            state_after A zt z0 theta0 N 0 = Inr (fC r, start A z0 theta0 N))) \<and>
   integration_constant A theta z0 zt =
     fmul A (fsub A (fcos A theta) (fdiv A (fmul A (fdiv A (lit A 1) (lit A 3)) z0) zt))
       (fpow A (fdiv A z0 zt) (lit A 0.5)) \<and>
   (zt' \<noteq> 0 \<and> 0 \<le> z0' / zt' \<longrightarrow>
      integration_constant xarith (Fin theta') (Fin z0') (Fin zt') =
        Fin ((cos theta' - (1 / 3) * (z0' / zt')) * sqrt (z0' / zt'))) \<and>
   (\<exists>r. plot_flight_path b64 (Fin 1) (Fin 1) (Fin 0) (Some 2) = Inr r \<and>
         fC r = Fin (6004799503160662 / 2 ^ 53) \<and>
         \<bar>6004799503160662 / 2 ^ 53 - 2 / 3\<bar> \<le> (1 / 2 ^ 53 :: real) \<and>
         fx r ! 0 = Fin 0 \<and> fz r ! 0 = Fin 1 \<and> fx r ! 1 = Fin 1 \<and> fz r ! 1 = Fin 0 \<and>
         is_fin (fx r ! 1) \<and> is_fin (fz r ! 1) \<and>
         (fx r ! 1, fz r ! 1) \<noteq> (fx r ! 0, fz r ! 0))"
proof (intro conjI impI)
  assume N: "1 \<le> N"
  from plot_flight_path_ok[OF N, of A zt z0 theta0] state_after_0[OF N, of A zt z0 theta0]
  show "\<exists>r. plot_flight_path A zt z0 theta0 (Some N) = Inr r \<and>
            fC r = integration_constant A (fradians A theta0) z0 zt \<and>
            state_after A zt z0 theta0 N 0 = Inr (fC r, start A z0 theta0 N)"
    by auto
next
  show "integration_constant A theta z0 zt =
     fmul A (fsub A (fcos A theta) (fdiv A (fmul A (fdiv A (lit A 1) (lit A 3)) z0) zt))
       (fpow A (fdiv A z0 zt) (lit A 0.5))"
    by (simp add: integration_constant_def)
next
  assume "zt' \<noteq> 0 \<and> 0 \<le> z0' / zt'"
  then show "integration_constant xarith (Fin theta') (Fin z0') (Fin zt') =
        Fin ((cos theta' - (1 / 3) * (z0' / zt')) * sqrt (z0' / zt'))"
    using integration_constant_exact[of zt' z0' theta'] by simp
next
  obtain r where r: "plot_flight_path b64 (Fin 1) (Fin 1) (Fin 0) (Some 2) = Inr r"
      "fC r = Fin (6004799503160662 / 2 ^ 53)"
      "\<bar>6004799503160662 / 2 ^ 53 - 2 / 3\<bar> \<le> (1 / 2 ^ 53 :: real)"
      "fx r ! 0 = Fin 0" "fz r ! 0 = Fin 1" "fx r ! 1 = Fin 1" "fz r ! 1 = Fin 0"
    using trim_flight_b64 by blast
  show "\<exists>r. plot_flight_path b64 (Fin 1) (Fin 1) (Fin 0) (Some 2) = Inr r \<and>
         fC r = Fin (6004799503160662 / 2 ^ 53) \<and>
         \<bar>6004799503160662 / 2 ^ 53 - 2 / 3\<bar> \<le> (1 / 2 ^ 53 :: real) \<and>
         fx r ! 0 = Fin 0 \<and> fz r ! 0 = Fin 1 \<and> fx r ! 1 = Fin 1 \<and> fz r ! 1 = Fin 0 \<and>
         is_fin (fx r ! 1) \<and> is_fin (fz r ! 1) \<and>
         (fx r ! 1, fz r ! 1) \<noteq> (fx r ! 0, fz r ! 0)"
    by (rule exI[of _ r]) (simp only: r, simp)
qed

theorem integration_constant_formula_witness:
  "(1::int) \<le> 2 \<and>
   (\<exists>r. plot_flight_path xarith (Fin 2) (Fin 8) (Fin 0) (Some 2) = Inr r \<and>
         fC r = Fin (- (2 / 3)) \<and>
         state_after xarith (Fin 2) (Fin 8) (Fin 0) 2 0 =
           Inr (fC r, start xarith (Fin 8) (Fin 0) 2)) \<and>
   (2::real) \<noteq> 0 \<and> (0::real) \<le> 8 / 2 \<and>
   integration_constant xarith (Fin 0) (Fin 8) (Fin 2) =
     Fin ((cos 0 - (1 / 3) * (8 / 2)) * sqrt (8 / 2)) \<and>
   (cos 0 - (1 / 3) * (8 / 2)) * sqrt (8 / 2) = (- (2 / 3) :: real)"
proof -
  have s: "sqrt 4 = 2" by simp
  have c: "integration_constant xarith (Fin 0) (Fin 8) (Fin 2) = Fin (- (2 / 3))"
    using integration_constant_exact[of 2 8 0] s by simp
  show ?thesis
    using integration_constant_formula[of 2 xarith "Fin 2" "Fin 8" "Fin 0" "Fin 0" 2 8 0] c s
    by simp
qed

section \<open>The curvature model\<close>

text \<open>
  C3. For all scalar inputs \<open>z\<close>, \<open>zt\<close>, \<open>C\<close> with \<open>z\<close> nonzero,
  \<open>radius_of_curvature(z, zt, C)\<close> equals \<open>zt / (1/3 - (C/2) * (zt/z)^1.5)\<close>: in
  every arithmetic it is this expression of the arithmetic's operations, and in exact
  arithmetic it is this real number wherever the real expression has a value (the base
  \<open>zt/z\<close> is not negative and the denominator is not zero).
\<close>

theorem radius_of_curvature_formula:
  "radius_of_curvature A z zt C =
     fdiv A zt
       (fsub A (fdiv A (lit A 1) (lit A 3))
          (fmul A (fdiv A C (lit A 2)) (fpow A (fdiv A zt z) (lit A 1.5)))) \<and>
   (z' \<noteq> 0 \<and> 0 \<le> zt' / z' \<and> 1 / 3 - (C' / 2) * (zt' / z') powr 1.5 \<noteq> 0 \<longrightarrow>
      radius_of_curvature xarith (Fin z') (Fin zt') (Fin C') =
        Fin (zt' / (1 / 3 - (C' / 2) * (zt' / z') powr 1.5)))"
proof (intro conjI impI)
  show "radius_of_curvature A z zt C =
     fdiv A zt
       (fsub A (fdiv A (lit A 1) (lit A 3))
          (fmul A (fdiv A C (lit A 2)) (fpow A (fdiv A zt z) (lit A 1.5))))"
    by (simp add: radius_of_curvature_def)
next
  assume h: "z' \<noteq> 0 \<and> 0 \<le> zt' / z' \<and> 1 / 3 - (C' / 2) * (zt' / z') powr 1.5 \<noteq> 0"
  have p: "xpow (Fin (zt' / z')) (Fin (3 / 2)) = Fin ((zt' / z') powr (3 / 2))"
    using h by (cases "zt' / z' = 0") auto
  show "radius_of_curvature xarith (Fin z') (Fin zt') (Fin C') =
        Fin (zt' / (1 / 3 - (C' / 2) * (zt' / z') powr 1.5))"
    using h p by (simp add: radius_of_curvature_def)
qed

theorem radius_of_curvature_formula_witness:
  "(1::real) \<noteq> 0 \<and> (0::real) \<le> 1 / 1 \<and> 1 / 3 - (0 / 2) * (1 / 1) powr 1.5 \<noteq> (0::real) \<and>
   radius_of_curvature xarith (Fin 1) (Fin 1) (Fin 0) =
     Fin (1 / (1 / 3 - (0 / 2) * (1 / 1) powr 1.5))"
  using radius_of_curvature_formula[of xarith "Fin 1" "Fin 1" "Fin 0" 1 1 0] by simp

text \<open>
  C8 (as amended). For every finite \<open>z\<close> other than zero,
  \<open>radius_of_curvature(z, z, 0)\<close> equals exactly \<open>z / (1/3)\<close> as float64
  computes it: \<open>z\<close> divided by the float64 value of \<open>1/3\<close>, which is
  \<open>6004799503160661 / 2^54\<close>, and rounded (to an infinity when the quotient
  overflows). In exact arithmetic this is \<open>3z\<close>; in float64 it is not always.
\<close>

theorem radius_at_trim_depth:
  "(z \<noteq> 0 \<longrightarrow>
      radius_of_curvature b64 (Fin z) (Fin z) (Fin 0) =
        fdiv b64 (Fin z) (fdiv b64 (lit b64 1) (lit b64 3))) \<and>
   fdiv b64 (lit b64 1) (lit b64 3) = Fin (6004799503160661 / 2 ^ 54) \<and>
   (z \<noteq> 0 \<longrightarrow>
      radius_of_curvature xarith (Fin z) (Fin z) (Fin 0) = Fin (z / (1 / 3)) \<and>
      z / (1 / 3) = 3 * z)"
proof (intro conjI impI)
  assume "z \<noteq> 0"
  then show "radius_of_curvature b64 (Fin z) (Fin z) (Fin 0) =
        fdiv b64 (Fin z) (fdiv b64 (lit b64 1) (lit b64 3))"
    by (rule b64_radius_trim)
next
  show "fdiv b64 (lit b64 1) (lit b64 3) = Fin (6004799503160661 / 2 ^ 54)"
    using rnd_third by simp
next
  assume "z \<noteq> 0"
  then show "radius_of_curvature xarith (Fin z) (Fin z) (Fin 0) = Fin (z / (1 / 3))"
    by (simp add: radius_of_curvature_def)
next
  show "z / (1 / 3) = 3 * z" by simp
qed

theorem radius_at_trim_depth_witness:
  "(2::real) \<noteq> 0 \<and>
   radius_of_curvature b64 (Fin 2) (Fin 2) (Fin 0) =
     fdiv b64 (Fin 2) (fdiv b64 (lit b64 1) (lit b64 3)) \<and>
   radius_of_curvature xarith (Fin 2) (Fin 2) (Fin 0) = Fin (2 / (1 / 3)) \<and>
   (2::real) / (1 / 3) = 3 * 2"
  using radius_at_trim_depth[of 2] by simp

text \<open>
  At \<open>z = 0\<close> the quotient \<open>zt / z\<close> is \<open>0 / 0\<close> and the radius is NaN, as it
  is at an infinite \<open>z\<close>. At \<open>z = 0.7\<close> the radius is \<open>2.1\<close>, the float64
  number above \<open>3z\<close>, where the float64 product \<open>3 * z\<close> is
  \<open>2.0999999999999996\<close>, the one below. At \<open>z = 2^1023\<close> the quotient overflows
  and the radius is infinite.
\<close>

theorem radius_at_trim_depth_counterexample:
  "radius_of_curvature b64 (Fin 0) (Fin 0) (Fin 0) = NaN \<and>
   radius_of_curvature b64 PInf PInf (Fin 0) = NaN \<and>
   lit b64 (7 / 10) = Fin (3152519739159347 / 2 ^ 52) \<and>
   radius_of_curvature b64 (lit b64 (7 / 10)) (lit b64 (7 / 10)) (Fin 0) =
     Fin (4728779608739021 / 2 ^ 51) \<and>
   fmul b64 (lit b64 3) (lit b64 (7 / 10)) = Fin (4728779608739020 / 2 ^ 51) \<and>
   Fin (4728779608739021 / 2 ^ 51) \<noteq> Fin (3 * (3152519739159347 / 2 ^ 52)) \<and>
   radius_of_curvature b64 (Fin (2 ^ 1023)) (Fin (2 ^ 1023)) (Fin 0) = PInf"
proof -
  have z: "radius_of_curvature b64 (Fin 0) (Fin 0) (Fin 0) = NaN"
    by (simp add: radius_of_curvature_def)
  have i: "radius_of_curvature b64 PInf PInf (Fin 0) = NaN"
    by (simp add: radius_of_curvature_def)
  have r: "radius_of_curvature b64 (Fin (3152519739159347 / 2 ^ 52))
      (Fin (3152519739159347 / 2 ^ 52)) (Fin 0) = Fin (4728779608739021 / 2 ^ 51)"
    using rnd_seven_tenths_by_third by (simp add: b64_radius_trim rnd_third)
  have "radius_of_curvature b64 (Fin 0) (Fin 0) (Fin 0) = NaN \<and>
   radius_of_curvature b64 PInf PInf (Fin 0) = NaN \<and>
   lit b64 (7 / 10) = Fin (3152519739159347 / 2 ^ 52) \<and>
   radius_of_curvature b64 (lit b64 (7 / 10)) (lit b64 (7 / 10)) (Fin 0) =
     Fin (4728779608739021 / 2 ^ 51) \<and>
   fmul b64 (lit b64 3) (lit b64 (7 / 10)) = Fin (4728779608739020 / 2 ^ 51) \<and>
   Fin (4728779608739021 / 2 ^ 51) \<noteq> Fin (3 * (3152519739159347 / 2 ^ 52))"
    using z i r rnd_three_seven_tenths by (simp add: rnd_seven_tenths)
  then show ?thesis using b64_radius_overflow by blast
qed

section \<open>The rotation operator\<close>

text \<open>
  C5. For every point \<open>(x, z)\<close>, center \<open>(xc, zc)\<close> and angle \<open>a\<close>,
  \<open>rotate\<close> returns \<open>x' = xc + (x-xc)*cos(a) + (z-zc)*sin(a)\<close> and
  \<open>z' = zc - (x-xc)*sin(a) + (z-zc)*cos(a)\<close>, where \<open>a\<close> is first converted from
  degrees to radians when the mode is \<open>degrees\<close> (the default) and is used as it is
  when the mode is \<open>radians\<close>: in every arithmetic, and as real numbers in exact
  arithmetic.
\<close>

theorem rotate_formula:
  "rotate_point A (x, z) (Some (xc, zc)) (Some a) (Some ''radians'') =
     (fadd A (fadd A xc (fmul A (fsub A x xc) (fcos A a))) (fmul A (fsub A z zc) (fsin A a)),
      fadd A (fsub A zc (fmul A (fsub A x xc) (fsin A a))) (fmul A (fsub A z zc) (fcos A a))) \<and>
   rotate_point A (x, z) (Some (xc, zc)) (Some a) (Some ''degrees'') =
     rotate_point A (x, z) (Some (xc, zc)) (Some (fradians A a)) (Some ''radians'') \<and>
   rotate_point A (x, z) (Some (xc, zc)) (Some a) None =
     rotate_point A (x, z) (Some (xc, zc)) (Some a) (Some ''degrees'') \<and>
   rotate_point xarith (Fin x', Fin z') (Some (Fin xc', Fin zc')) (Some (Fin a'))
       (Some ''radians'') =
     (Fin (xc' + (x' - xc') * cos a' + (z' - zc') * sin a'),
      Fin (zc' - (x' - xc') * sin a' + (z' - zc') * cos a')) \<and>
   rotate_point xarith (Fin x', Fin z') (Some (Fin xc', Fin zc')) (Some (Fin a'))
       (Some ''degrees'') =
     (Fin (xc' + (x' - xc') * cos (a' * (pi / 180)) + (z' - zc') * sin (a' * (pi / 180))),
      Fin (zc' - (x' - xc') * sin (a' * (pi / 180)) + (z' - zc') * cos (a' * (pi / 180))))"
  by (simp add: rotate_point_def)

text \<open>
  C7 (as amended). For every finite point and every batch of equally many finite
  \<open>x\<close> and \<open>z\<close> values, \<open>rotate\<close> with the angle \<open>0\<close> (given or left
  out) about the center \<open>(0, 0)\<close> (given or left out) returns the input coordinates
  unchanged, in float64 and in either mode (a zero may come back with the other sign,
  which compares equal). About another finite center it returns, for a point and for
  each point of a batch, \<open>(xc + (x - xc), zc + (z - zc))\<close> with each difference and
  sum rounded to float64, when no difference overflows: the input where these operations
  are exact, and for every finite center in exact arithmetic.
\<close>

theorem rotate_zero_angle_identity:
  "(representable x \<and> representable z \<and>
    (center = None \<or> center = Some (Fin 0, Fin 0)) \<and> (angle = None \<or> angle = Some (Fin 0)) \<longrightarrow>
      rotate_point b64 (Fin x, Fin z) center angle mode = (Fin x, Fin z)) \<and>
   (length xs = length zs \<and> (\<forall>a\<in>set xs. representable a) \<and> (\<forall>b\<in>set zs. representable b) \<and>
    (center = None \<or> center = Some (Fin 0, Fin 0)) \<and> (angle = None \<or> angle = Some (Fin 0)) \<longrightarrow>
      rotate_arrays b64 (map Fin xs, map Fin zs) center angle mode =
        Inr (map Fin xs, map Fin zs)) \<and>
   (representable zc \<and> is_fin (fsub b64 (Fin x) (Fin xc)) \<and> is_fin (fsub b64 (Fin z) (Fin zc)) \<longrightarrow>
      rotate_point b64 (Fin x, Fin z) (Some (Fin xc, Fin zc)) (Some (Fin 0)) mode =
        (fadd b64 (Fin xc) (fsub b64 (Fin x) (Fin xc)),
         fadd b64 (Fin zc) (fsub b64 (Fin z) (Fin zc)))) \<and>
   (length xs = length zs \<and> representable zc \<and>
    (\<forall>a\<in>set xs. is_fin (fsub b64 (Fin a) (Fin xc))) \<and>
    (\<forall>b\<in>set zs. is_fin (fsub b64 (Fin b) (Fin zc))) \<longrightarrow>
      rotate_arrays b64 (map Fin xs, map Fin zs) (Some (Fin xc, Fin zc)) (Some (Fin 0)) mode =
        Inr (map (\<lambda>a. fadd b64 (Fin xc) (fsub b64 (Fin a) (Fin xc))) xs,
             map (\<lambda>b. fadd b64 (Fin zc) (fsub b64 (Fin b) (Fin zc))) zs)) \<and>
   rotate_point xarith (Fin x, Fin z) (Some (Fin xc, Fin zc)) (Some (Fin 0)) mode =
     (Fin x, Fin z) \<and>
   (length xs = length zs \<longrightarrow>
      rotate_arrays xarith (map Fin xs, map Fin zs) (Some (Fin xc, Fin zc)) (Some (Fin 0)) mode =
        Inr (map Fin xs, map Fin zs))"
proof (intro conjI impI)
  assume "representable x \<and> representable z \<and>
    (center = None \<or> center = Some (Fin 0, Fin 0)) \<and> (angle = None \<or> angle = Some (Fin 0))"
  then show "rotate_point b64 (Fin x, Fin z) center angle mode = (Fin x, Fin z)"
    by (intro b64_rotate_zero_origin) simp_all
next
  assume h: "length xs = length zs \<and> (\<forall>a\<in>set xs. representable a) \<and>
    (\<forall>b\<in>set zs. representable b) \<and>
    (center = None \<or> center = Some (Fin 0, Fin 0)) \<and> (angle = None \<or> angle = Some (Fin 0))"
  let ?rot = "\<lambda>p. rotate_point b64 p center angle mode"
  have pt: "?rot (Fin a, Fin b) = (Fin a, Fin b)" if "a \<in> set xs" "b \<in> set zs" for a b
    using h that by (intro b64_rotate_zero_origin) simp_all
  have len: "length xs = length zs" using h by simp
  from rotate_map_pointwise[of xs zs ?rot Fin Fin, OF len pt]
  show "rotate_arrays b64 (map Fin xs, map Fin zs) center angle mode =
      Inr (map Fin xs, map Fin zs)"
    using len rotate_arrays_elementwise[of "map Fin xs" "map Fin zs" b64 center angle mode]
    by simp
next
  assume "representable zc \<and> is_fin (fsub b64 (Fin x) (Fin xc)) \<and>
    is_fin (fsub b64 (Fin z) (Fin zc))"
  then show "rotate_point b64 (Fin x, Fin z) (Some (Fin xc, Fin zc)) (Some (Fin 0)) mode =
      (fadd b64 (Fin xc) (fsub b64 (Fin x) (Fin xc)),
       fadd b64 (Fin zc) (fsub b64 (Fin z) (Fin zc)))"
    by (intro b64_rotate_zero_finite) simp_all
next
  assume h: "length xs = length zs \<and> representable zc \<and>
    (\<forall>a\<in>set xs. is_fin (fsub b64 (Fin a) (Fin xc))) \<and>
    (\<forall>b\<in>set zs. is_fin (fsub b64 (Fin b) (Fin zc)))"
  let ?rot = "\<lambda>p. rotate_point b64 p (Some (Fin xc, Fin zc)) (Some (Fin 0)) mode"
  let ?f = "\<lambda>a. fadd b64 (Fin xc) (fsub b64 (Fin a) (Fin xc))"
  let ?g = "\<lambda>b. fadd b64 (Fin zc) (fsub b64 (Fin b) (Fin zc))"
  have pt: "?rot (Fin a, Fin b) = (?f a, ?g b)" if "a \<in> set xs" "b \<in> set zs" for a b
    using h that by (intro b64_rotate_zero_finite) simp_all
  have len: "length xs = length zs" using h by simp
  from rotate_map_pointwise[of xs zs ?rot ?f ?g, OF len pt]
  show "rotate_arrays b64 (map Fin xs, map Fin zs) (Some (Fin xc, Fin zc)) (Some (Fin 0)) mode =
      Inr (map ?f xs, map ?g zs)"
    using len rotate_arrays_elementwise[of "map Fin xs" "map Fin zs" b64
        "Some (Fin xc, Fin zc)" "Some (Fin 0)" mode]
    by simp
next
  show "rotate_point xarith (Fin x, Fin z) (Some (Fin xc, Fin zc)) (Some (Fin 0)) mode =
     (Fin x, Fin z)"
    by (rule rotate_zero_point) simp_all
next
  assume len: "length xs = length zs"
  let ?rot = "\<lambda>p. rotate_point xarith p (Some (Fin xc, Fin zc)) (Some (Fin 0)) mode"
  have pt: "?rot (Fin a, Fin b) = (Fin a, Fin b)" for a b
    by (rule rotate_zero_point) simp_all
  from rotate_map_pointwise[of xs zs ?rot Fin Fin, OF len pt]
  show "rotate_arrays xarith (map Fin xs, map Fin zs) (Some (Fin xc, Fin zc))
      (Some (Fin 0)) mode = Inr (map Fin xs, map Fin zs)"
    using len rotate_arrays_elementwise[of "map Fin xs" "map Fin zs" xarith] by simp
qed

theorem rotate_zero_angle_identity_witness:
  "representable 3 \<and> representable 4 \<and> representable 5 \<and> representable 6 \<and> representable 2 \<and>
   rotate_point b64 (Fin 3, Fin 4) None (Some (Fin 0)) None = (Fin 3, Fin 4) \<and>
   length [3, 5 :: real] = length [4, 6 :: real] \<and>
   rotate_arrays b64 ([Fin 3, Fin 5], [Fin 4, Fin 6]) None (Some (Fin 0)) None =
     Inr ([Fin 3, Fin 5], [Fin 4, Fin 6]) \<and>
   is_fin (fsub b64 (Fin 3) (Fin 1)) \<and> is_fin (fsub b64 (Fin 5) (Fin 1)) \<and>
   is_fin (fsub b64 (Fin 4) (Fin 2)) \<and> is_fin (fsub b64 (Fin 6) (Fin 2)) \<and>
   rotate_point b64 (Fin 3, Fin 4) (Some (Fin 1, Fin 2)) (Some (Fin 0)) None = (Fin 3, Fin 4) \<and>
   rotate_arrays b64 ([Fin 3, Fin 5], [Fin 4, Fin 6]) (Some (Fin 1, Fin 2)) (Some (Fin 0)) None =
     Inr ([Fin 3, Fin 5], [Fin 4, Fin 6]) \<and>
   rotate_point xarith (Fin 3, Fin 4) (Some (Fin 1, Fin 2)) (Some (Fin 0)) None = (Fin 3, Fin 4) \<and>
   rotate_arrays xarith ([Fin 3, Fin 5], [Fin 4, Fin 6]) (Some (Fin 1, Fin 2)) (Some (Fin 0)) None =
     Inr ([Fin 3, Fin 5], [Fin 4, Fin 6])"
proof -
  have r: "representable 2" "representable 3" "representable 4" "representable 5" "representable 6"
    using representable_small_int[of 2] representable_small_int[of 3]
      representable_small_int[of 4] representable_small_int[of 5] representable_small_int[of 6]
    by simp_all
  then have n: "rnd 4 = Fin 4" "rnd 5 = Fin 5" "rnd 6 = Fin 6"
    by (simp_all add: representable_def)
  show ?thesis
    using rotate_zero_angle_identity[where x = 3 and z = 4 and center = None
        and angle = "Some (Fin 0)" and mode = None and xs = "[3, 5]" and zs = "[4, 6]"
        and xc = 1 and zc = 2] r n
    by (simp add: xsub_def)
qed

text \<open>
  About the center \<open>(1, 0)\<close> the point \<open>(0.1, 0)\<close> comes back as
  \<open>(0.09999999999999998, 0)\<close>: \<open>0.1 - 1\<close> is rounded. A point at infinite depth
  does not come back either: \<open>(z - zc) * sin(0)\<close> is the product of an infinity and
  zero.
\<close>

theorem rotate_zero_angle_counterexample:
  "lit b64 (1 / 10) = Fin (3602879701896397 / 2 ^ 55) \<and>
   rotate_point b64 (lit b64 (1 / 10), Fin 0) (Some (Fin 1, Fin 0)) (Some (Fin 0))
       (Some ''radians'') = (Fin (900719925474099 / 2 ^ 53), Fin 0) \<and>
   rotate_point b64 (lit b64 (1 / 10), Fin 0) (Some (Fin 1, Fin 0)) (Some (Fin 0))
       (Some ''radians'') \<noteq> (lit b64 (1 / 10), Fin 0) \<and>
   rotate_point b64 (Fin 0, PInf) (Some (Fin 0, Fin 0)) (Some (Fin 0)) (Some ''radians'') =
     (NaN, PInf)"
proof -
  have r: "rotate_point b64 (Fin (3602879701896397 / 2 ^ 55), Fin 0) (Some (Fin 1, Fin 0))
      (Some (Fin 0)) (Some ''radians'') =
      (fadd b64 (Fin 1) (Fin (- (8106479329266893 / 2 ^ 53))), fadd b64 (Fin 0) (Fin 0))"
  proof (rule b64_rotate_zero)
    show "representable 0" by (simp add: representable_def)
    show "fsub b64 (Fin (3602879701896397 / 2 ^ 55)) (Fin 1) = Fin (- (8106479329266893 / 2 ^ 53))"
      using rnd_tenth_minus_1 by simp
    show "fsub b64 (Fin 0) (Fin 0) = Fin 0" by simp
  qed
  have i: "rotate_point b64 (Fin 0, PInf) (Some (Fin 0, Fin 0)) (Some (Fin 0)) (Some ''radians'') =
     (NaN, PInf)"
    by (simp add: rotate_point_def xsub_def)
  show ?thesis
    using r i rnd_tenth_back by (simp add: rnd_tenth)
qed

text \<open>
  C9. \<open>rotate\<close> is an isometry about its center: in exact arithmetic the distance
  from the returned point to the center equals the distance from the input point to the
  center, for every point, center and angle. So each marching step with a finite
  previous point, a finite heading and a finite nonzero radius \<open>R\<close> puts the new
  point on the circle of radius \<open>|R|\<close> about that step's rotation center.
\<close>

theorem rotate_isometry_step_on_circle:
  "(\<exists>x' z'. rotate_point xarith (Fin x, Fin z) (Some (Fin xc, Fin zc)) (Some (Fin a)) mode =
             (Fin x', Fin z') \<and>
           sqrt ((x' - xc)\<^sup>2 + (z' - zc)\<^sup>2) = sqrt ((x - xc)\<^sup>2 + (z - zc)\<^sup>2)) \<and>
   (1 \<le> i \<and> i < N \<and>
    plot_flight_path xarith zt z0 theta0 (Some N) = Inr r \<and>
    state_after xarith zt z0 theta0 N (i - 1) = Inr (fC r, s) \<and>
    fx r ! nat (i - 1) = Fin xp \<and> fz r ! nat (i - 1) = Fin zp \<and> stheta s = Fin th \<and>
    radius_of_curvature xarith (Fin zp) zt (fC r) = Fin R \<and> R \<noteq> 0 \<longrightarrow>
      (\<exists>x1 z1. fx r ! nat i = Fin x1 \<and> fz r ! nat i = Fin z1 \<and>
         sqrt ((x1 - (xp + R * cos (th + pi / 2)))\<^sup>2 +
               (z1 - (zp + R * (- sin (th + pi / 2))))\<^sup>2) = \<bar>R\<bar>))"
proof (intro conjI impI)
  show "\<exists>x' z'. rotate_point xarith (Fin x, Fin z) (Some (Fin xc, Fin zc)) (Some (Fin a)) mode =
             (Fin x', Fin z') \<and>
           sqrt ((x' - xc)\<^sup>2 + (z' - zc)\<^sup>2) = sqrt ((x - xc)\<^sup>2 + (z - zc)\<^sup>2)"
    by (rule rotate_point_isometry)
next
  assume h: "1 \<le> i \<and> i < N \<and>
    plot_flight_path xarith zt z0 theta0 (Some N) = Inr r \<and>
    state_after xarith zt z0 theta0 N (i - 1) = Inr (fC r, s) \<and>
    fx r ! nat (i - 1) = Fin xp \<and> fz r ! nat (i - 1) = Fin zp \<and> stheta s = Fin th \<and>
    radius_of_curvature xarith (Fin zp) zt (fC r) = Fin R \<and> R \<noteq> 0"
  then have i: "1 \<le> i" "i < N" by simp_all
  from path_step[OF i, of xarith zt z0 theta0]
  obtain r1 and s1 s2 :: "xreal state" where st:
      "plot_flight_path xarith zt z0 theta0 (Some N) = Inr r1"
      "state_after xarith zt z0 theta0 N (i - 1) = Inr (fC r1, s1)"
      "(fx r1 ! nat i, fz r1 ! nat i, stheta s2) =
         advance xarith zt (fC r1) (lit xarith 1)
           (fx r1 ! nat (i - 1), fz r1 ! nat (i - 1), stheta s1)"
    by blast
  have eq: "r1 = r" "s1 = s" using st(1,2) h by simp_all
  have step: "(fx r ! nat i, fz r ! nat i, stheta s2) =
      advance xarith zt (fC r) (Fin 1) (Fin xp, Fin zp, Fin th)"
    using st(3) h unfolding eq by simp
  from h have R: "radius_of_curvature xarith (Fin zp) zt (fC r) = Fin R" "R \<noteq> 0"
    by simp_all
  from advance_finite[OF R, of xp th] step
  show "\<exists>x1 z1. fx r ! nat i = Fin x1 \<and> fz r ! nat i = Fin z1 \<and>
         sqrt ((x1 - (xp + R * cos (th + pi / 2)))\<^sup>2 +
               (z1 - (zp + R * (- sin (th + pi / 2))))\<^sup>2) = \<bar>R\<bar>"
    by auto
qed

theorem rotate_isometry_step_on_circle_witness:
  "\<exists>r x1 z1.
     plot_flight_path xarith (Fin 1) (Fin 1) (Fin 180) (Some 2) = Inr r \<and>
     state_after xarith (Fin 1) (Fin 1) (Fin 180) 2 0 = Inr (fC r, start xarith (Fin 1) (Fin 180) 2) \<and>
     fx r ! 0 = Fin 0 \<and> fz r ! 0 = Fin 1 \<and>
     stheta (start xarith (Fin 1) (Fin 180) 2) = Fin pi \<and>
     radius_of_curvature xarith (Fin 1) (Fin 1) (fC r) = Fin 1 \<and> (1::real) \<noteq> 0 \<and>
     fx r ! 1 = Fin x1 \<and> fz r ! 1 = Fin z1 \<and>
     sqrt ((x1 - (0 + 1 * cos (pi + pi / 2)))\<^sup>2 +
           (z1 - (1 + 1 * (- sin (pi + pi / 2))))\<^sup>2) = \<bar>1\<bar>"
proof -
  have N: "(1::int) \<le> 2" by simp
  let ?C = "integration_constant xarith (fradians xarith (Fin 180)) (Fin 1) (Fin 1)"
  obtain sN :: "xreal state" where sN:
      "plot_flight_path xarith (Fin 1) (Fin 1) (Fin 180) (Some 2) =
         Inr \<lparr>fx = sx sN, fz = sz sN, fC = ?C\<rparr>"
      "sx sN ! 0 = Fin 0" "sz sN ! 0 = Fin 1"
    using plot_flight_path_ok[OF N, of xarith "Fin 1" "Fin 1" "Fin 180"] by auto
  let ?r = "\<lparr>fx = sx sN, fz = sz sN, fC = ?C\<rparr>"
  have C: "?C = Fin (- (4 / 3))"
    by (simp add: integration_constant_def)
  have R: "radius_of_curvature xarith (Fin 1) (Fin 1) ?C = Fin 1"
    unfolding C by (simp add: radius_of_curvature_def)
  have s0: "state_after xarith (Fin 1) (Fin 1) (Fin 180) 2 0 =
      Inr (?C, start xarith (Fin 1) (Fin 180) 2)"
    by (rule state_after_0[OF N])
  have th: "stheta (start xarith (Fin 1) (Fin 180) 2) = Fin pi"
    by (simp add: start_simps)
  have "\<exists>x1 z1. fx ?r ! nat 1 = Fin x1 \<and> fz ?r ! nat 1 = Fin z1 \<and>
         sqrt ((x1 - (0 + 1 * cos (pi + pi / 2)))\<^sup>2 +
               (z1 - (1 + 1 * (- sin (pi + pi / 2))))\<^sup>2) = \<bar>1\<bar>"
    using rotate_isometry_step_on_circle[where i = 1 and N = 2 and zt = "Fin 1"
        and ?z0.0 = "Fin 1" and ?theta0.0 = "Fin 180" and r = ?r
        and s = "start xarith (Fin 1) (Fin 180) 2" and xp = 0 and zp = 1 and th = pi and R = 1]
      sN s0 th R
    by simp
  then show ?thesis
    using sN s0 th R by auto
qed

text \<open>
  C10. \<open>rotate\<close> does not validate its mode: for every mode string other than
  \<open>degrees\<close>, a misspelt or capitalised one included, the angle is taken as radians,
  that is, the result is the result for the mode \<open>radians\<close>, on a point and on
  arrays; choosing the mode raises nothing.
\<close>

theorem rotate_unvalidated_mode:
  assumes "m \<noteq> ''degrees''"
  shows "rotate_point A coords center angle (Some m) =
           rotate_point A coords center angle (Some ''radians'') \<and>
         rotate_arrays A arrays center angle (Some m) =
           rotate_arrays A arrays center angle (Some ''radians'')"
  using assms by (simp add: rotate_point_def rotate_arrays_def)

theorem rotate_unvalidated_mode_witness:
  "''Degrees'' \<noteq> ''degrees'' \<and>
   rotate_point xarith (Fin 1, Fin 2) None (Some (Fin 90)) (Some ''Degrees'') =
     rotate_point xarith (Fin 1, Fin 2) None (Some (Fin 90)) (Some ''radians'') \<and>
   rotate_arrays xarith ([Fin 1], [Fin 2]) None (Some (Fin 90)) (Some ''Degrees'') =
     rotate_arrays xarith ([Fin 1], [Fin 2]) None (Some (Fin 90)) (Some ''radians'')"
  using rotate_unvalidated_mode[of "''Degrees''" xarith "(Fin 1, Fin 2)" None "Some (Fin 90)"
      "([Fin 1], [Fin 2])"]
  by simp

end
